theory Spec2Isabelle
  imports Main
begin

section \<open>Python values\<close>

text \<open>
  The script \<^verbatim>\<open>examples/setup_claude_desktop.py\<close> builds a nested dictionary, merges it
  into the JSON document found at the configuration path, and writes the result back
  with \<^verbatim>\<open>json.dump(config, f, indent=2)\<close>.

  A Python \<^verbatim>\<open>str\<close> is a sequence of code points, modelled as a list of naturals; the
  bytes of a file are an Isabelle \<open>string\<close> (a list of 8-bit characters). A \<^verbatim>\<open>dict\<close>
  keeps its keys in insertion order, which decides the order of the serialised text, so
  it is an association list. The values below are the ones \<^verbatim>\<open>json.load\<close> can return.

  A \<^verbatim>\<open>float\<close> is either one of the three special values or a finite number. The finite
  numbers stay abstract (the type variable \<open>'f\<close>): converting them from and to decimal
  text is the interpreter's business, and is passed to the model as a parameter.
\<close>

type_synonym pystr = "nat list"

datatype 'f pyfloat = NaN | PosInf | NegInf | Finite 'f

datatype 'f json =
    JNull
  | JBool bool
  | JInt int
  | JFloat "'f pyfloat"
  | JStr pystr
  | JArr "'f json list"
  | JObj "(pystr \<times> 'f json) list"

record 'f float_codec =
  float_of_str :: "string \<Rightarrow> 'f pyfloat"
  float_repr :: "'f \<Rightarrow> string"

datatype pyerror =
    JSONDecodeError
  | UnicodeDecodeError
  | UnicodeEncodeError
  | TypeError
  | AttributeError
  | KeyError
  | OSError nat

definition pystr :: "string \<Rightarrow> pystr" where
  "pystr s = map of_char s"

subsection \<open>Dictionaries\<close>

text \<open>
  \<^verbatim>\<open>k in d\<close>, \<^verbatim>\<open>d[k]\<close>, \<^verbatim>\<open>d[k] = v\<close> and \<^verbatim>\<open>d.update(other)\<close> on an insertion-ordered
  dictionary. Assigning to a key that is present replaces its value where it stands;
  a new key goes to the back.
\<close>

definition dict_contains :: "pystr \<Rightarrow> (pystr \<times> 'v) list \<Rightarrow> bool" where
  "dict_contains k d = (k \<in> fst ` set d)"

definition dict_get :: "pystr \<Rightarrow> (pystr \<times> 'v) list \<Rightarrow> 'v option" where
  "dict_get k d = map_of d k"

primrec dict_set :: "pystr \<Rightarrow> 'v \<Rightarrow> (pystr \<times> 'v) list \<Rightarrow> (pystr \<times> 'v) list" where
  "dict_set k v [] = [(k, v)]"
| "dict_set k v (p # ps) = (if fst p = k then (k, v) # ps else p # dict_set k v ps)"

primrec dict_update :: "(pystr \<times> 'v) list \<Rightarrow> (pystr \<times> 'v) list \<Rightarrow> (pystr \<times> 'v) list" where
  "dict_update d [] = d"
| "dict_update d (p # ps) = dict_update (dict_set (fst p) (snd p) d) ps"

text \<open>\<^verbatim>\<open>dict(pairs)\<close>: later pairs overwrite earlier ones with the same key.\<close>

definition dict_of_pairs :: "(pystr \<times> 'v) list \<Rightarrow> (pystr \<times> 'v) list" where
  "dict_of_pairs ps = dict_update [] ps"

text \<open>\<^verbatim>\<open>sub in s\<close> on strings: \<open>sub\<close> occurs in \<open>s\<close> as a contiguous run.\<close>

primrec starts_with :: "'a list \<Rightarrow> 'a list \<Rightarrow> bool" where
  "starts_with [] s = True"
| "starts_with (p # ps) s = (case s of [] \<Rightarrow> False | c # r \<Rightarrow> c = p \<and> starts_with ps r)"

primrec str_contains :: "pystr \<Rightarrow> pystr \<Rightarrow> bool" where
  "str_contains sub [] = (sub = [])"
| "str_contains sub (c # r) = (starts_with sub (c # r) \<or> str_contains sub r)"

section \<open>Text files: UTF-8\<close>

text \<open>
  The file is opened with \<^verbatim>\<open>encoding='utf-8'\<close>. Reading decodes strictly: a byte sequence
  that is not well-formed UTF-8 (a stray continuation byte, an overlong form, an encoded
  surrogate, a value above U+10FFFF, a truncated sequence) raises \<^verbatim>\<open>UnicodeDecodeError\<close>,
  here \<open>None\<close>. Writing encodes; a surrogate code point cannot be encoded.

  Text mode also translates line ends on reading. In a JSON document a line end can only
  stand between tokens (inside a string it is a control character, an error before and
  after the translation), so the translation changes no result and is left out.
\<close>

definition is_cont :: "char \<Rightarrow> bool" where
  "is_cont b = (128 \<le> (of_char b :: nat) \<and> (of_char b :: nat) \<le> 191)"

definition cont :: "char \<Rightarrow> nat" where
  "cont b = of_char b - 128"

text \<open>The first code point of a byte sequence, and the bytes after it.\<close>

definition utf8_next :: "string \<Rightarrow> (nat \<times> string) option" where
  "utf8_next bs =
    (case bs of
       [] \<Rightarrow> None
     | b # r0 \<Rightarrow>
         (let b0 = (of_char b :: nat) in
          if b0 < 128 then Some (b0, r0)
          else if 194 \<le> b0 \<and> b0 \<le> 223 then
            (case r0 of
               b1 # r \<Rightarrow> if is_cont b1 then Some ((b0 - 192) * 64 + cont b1, r) else None
             | _ \<Rightarrow> None)
          else if 224 \<le> b0 \<and> b0 \<le> 239 then
            (case r0 of
               b1 # b2 # r \<Rightarrow>
                 (let cp = (b0 - 224) * 4096 + cont b1 * 64 + cont b2 in
                  if is_cont b1 \<and> is_cont b2 \<and> 2048 \<le> cp \<and> \<not> (55296 \<le> cp \<and> cp \<le> 57343)
                  then Some (cp, r)
                  else None)
             | _ \<Rightarrow> None)
          else if 240 \<le> b0 \<and> b0 \<le> 244 then
            (case r0 of
               b1 # b2 # b3 # r \<Rightarrow>
                 (let cp = (b0 - 240) * 262144 + cont b1 * 4096 + cont b2 * 64 + cont b3 in
                  if is_cont b1 \<and> is_cont b2 \<and> is_cont b3 \<and> 65536 \<le> cp \<and> cp \<le> 1114111
                  then Some (cp, r)
                  else None)
             | _ \<Rightarrow> None)
          else None))"

lemma utf8_next_shorter: "utf8_next bs = Some (cp, r) \<Longrightarrow> length r < length bs"
  by (auto simp: utf8_next_def Let_def split: list.splits if_splits)

function utf8_decode :: "string \<Rightarrow> pystr option" where
  "utf8_decode bs =
    (if bs = [] then Some []
     else
       (case utf8_next bs of
          None \<Rightarrow> None
        | Some (cp, r) \<Rightarrow> map_option (Cons cp) (utf8_decode r)))"
  by pat_completeness auto
termination
  by (relation "measure length") (auto dest: utf8_next_shorter)

declare utf8_decode.simps [simp del]

definition utf8_encode_char :: "nat \<Rightarrow> string option" where
  "utf8_encode_char c =
    (if c < 128 then Some [char_of c]
     else if c < 2048 then Some [char_of (192 + c div 64), char_of (128 + c mod 64)]
     else if 55296 \<le> c \<and> c \<le> 57343 then None
     else if c < 65536 then
       Some [char_of (224 + c div 4096), char_of (128 + c div 64 mod 64), char_of (128 + c mod 64)]
     else if c \<le> 1114111 then
       Some [char_of (240 + c div 262144), char_of (128 + c div 4096 mod 64),
             char_of (128 + c div 64 mod 64), char_of (128 + c mod 64)]
     else None)"

primrec utf8_encode :: "pystr \<Rightarrow> string option" where
  "utf8_encode [] = Some []"
| "utf8_encode (c # cs) =
    (case utf8_encode_char c of
       None \<Rightarrow> None
     | Some bs \<Rightarrow> map_option (append bs) (utf8_encode cs))"

section \<open>The JSON encoder: \<^verbatim>\<open>json.dump(config, f, indent=2)\<close>\<close>

text \<open>
  With \<^verbatim>\<open>indent=2\<close> and the other defaults: \<^verbatim>\<open>ensure_ascii=True\<close>, the item separator is
  a comma followed by a newline and the indentation, the key separator is a colon and a
  space, an empty list is \<^verbatim>\<open>[]\<close> and an empty dictionary \<^verbatim>\<open>{}\<close>.

  Strings (\<^verbatim>\<open>py_encode_basestring_ascii\<close>): the printable ASCII characters other than the
  quote and the backslash stand for themselves; the quote, the backslash and five control
  characters have a two-character escape; every other code point below U+10000 is
  \<^verbatim>\<open>\uXXXX\<close> with four lowercase hexadecimal digits, and a code point from U+10000 on is a
  surrogate pair of two such escapes.
\<close>

definition hexdigit :: "nat \<Rightarrow> nat" where
  "hexdigit d = (if d < 10 then 48 + d else 87 + d)"

definition hex4 :: "nat \<Rightarrow> pystr" where
  "hex4 n = [hexdigit (n div 4096 mod 16), hexdigit (n div 256 mod 16),
             hexdigit (n div 16 mod 16), hexdigit (n mod 16)]"

definition escape_char :: "nat \<Rightarrow> pystr" where
  "escape_char c =
    (if c = 92 then [92, 92]
     else if c = 34 then [92, 34]
     else if 32 \<le> c \<and> c \<le> 126 then [c]
     else if c = 8 then [92, 98]
     else if c = 12 then [92, 102]
     else if c = 10 then [92, 110]
     else if c = 13 then [92, 114]
     else if c = 9 then [92, 116]
     else if c < 65536 then 92 # 117 # hex4 c
     else 92 # 117 # hex4 (55296 + (c - 65536) div 1024 mod 1024)
        @ 92 # 117 # hex4 (56320 + (c - 65536) mod 1024))"

definition encode_basestring_ascii :: "pystr \<Rightarrow> pystr" where
  "encode_basestring_ascii s = 34 # concat (map escape_char s) @ [34]"

text \<open>Integers print in decimal (\<^verbatim>\<open>int.__repr__\<close>).\<close>

fun show_nat :: "nat \<Rightarrow> pystr" where
  "show_nat n = (if n < 10 then [48 + n] else show_nat (n div 10) @ [48 + n mod 10])"

declare show_nat.simps [simp del]

definition show_int :: "int \<Rightarrow> pystr" where
  "show_int i = (if i < 0 then 45 # show_nat (nat (- i)) else show_nat (nat i))"

text \<open>
  Floats (\<^verbatim>\<open>floatstr\<close>): \<^verbatim>\<open>NaN\<close>, \<^verbatim>\<open>Infinity\<close> and \<^verbatim>\<open>-Infinity\<close> for the special values
  (\<^verbatim>\<open>allow_nan\<close> is on by default), \<^verbatim>\<open>float.__repr__\<close> for the finite ones.
\<close>

definition floatstr :: "'f float_codec \<Rightarrow> 'f pyfloat \<Rightarrow> pystr" where
  "floatstr fc x =
    (case x of
       NaN \<Rightarrow> pystr ''NaN''
     | PosInf \<Rightarrow> pystr ''Infinity''
     | NegInf \<Rightarrow> pystr ''-Infinity''
     | Finite y \<Rightarrow> pystr (float_repr fc y))"

definition newline_indent :: "nat \<Rightarrow> pystr" where
  "newline_indent lvl = 10 # replicate (2 * lvl) 32"

text \<open>
  \<open>iterencode fc lvl v\<close> is the text of \<open>v\<close> at indentation level \<open>lvl\<close>;
  \<open>iterencode_list\<close> and \<open>iterencode_dict\<close> are the items of a non-empty container, one
  level deeper, joined by the item separator.
\<close>

fun iterencode :: "'f float_codec \<Rightarrow> nat \<Rightarrow> 'f json \<Rightarrow> pystr"
  and iterencode_list :: "'f float_codec \<Rightarrow> nat \<Rightarrow> 'f json list \<Rightarrow> pystr"
  and iterencode_dict :: "'f float_codec \<Rightarrow> nat \<Rightarrow> (pystr \<times> 'f json) list \<Rightarrow> pystr"
where
  "iterencode fc lvl JNull = pystr ''null''"
| "iterencode fc lvl (JBool b) = (if b then pystr ''true'' else pystr ''false'')"
| "iterencode fc lvl (JInt i) = show_int i"
| "iterencode fc lvl (JFloat x) = floatstr fc x"
| "iterencode fc lvl (JStr s) = encode_basestring_ascii s"
| "iterencode fc lvl (JArr xs) =
    (if xs = [] then pystr ''[]''
     else 91 # newline_indent (Suc lvl) @ iterencode_list fc (Suc lvl) xs
          @ newline_indent lvl @ [93])"
| "iterencode fc lvl (JObj kvs) =
    (if kvs = [] then pystr ''{}''
     else 123 # newline_indent (Suc lvl) @ iterencode_dict fc (Suc lvl) kvs
          @ newline_indent lvl @ [125])"
| "iterencode_list fc lvl [] = []"
| "iterencode_list fc lvl (x # xs) =
    iterencode fc lvl x
    @ (if xs = [] then [] else 44 # newline_indent lvl @ iterencode_list fc lvl xs)"
| "iterencode_dict fc lvl [] = []"
| "iterencode_dict fc lvl (kv # kvs) =
    encode_basestring_ascii (fst kv) @ [58, 32] @ iterencode fc lvl (snd kv)
    @ (if kvs = [] then [] else 44 # newline_indent lvl @ iterencode_dict fc lvl kvs)"

definition dumps :: "'f float_codec \<Rightarrow> 'f json \<Rightarrow> pystr" where
  "dumps fc v = iterencode fc 0 v"

section \<open>The JSON decoder: \<^verbatim>\<open>json.load(f)\<close>\<close>

text \<open>
  \<^verbatim>\<open>json.load\<close> reads the whole file and hands the text to the decoder. Every function
  below returns \<open>None\<close> where the decoder raises \<^verbatim>\<open>JSONDecodeError\<close> (the scanner's
  \<^verbatim>\<open>StopIteration\<close> is turned into one by its callers). Positions and messages of the
  error are not modelled, and neither are the interpreter's resource limits (recursion
  depth, the cap on the number of digits of an integer literal).
\<close>

definition is_ws :: "nat \<Rightarrow> bool" where
  "is_ws c = (c = 32 \<or> c = 9 \<or> c = 10 \<or> c = 13)"

definition skip_ws :: "pystr \<Rightarrow> pystr" where
  "skip_ws s = dropWhile is_ws s"

subsection \<open>Strings\<close>

definition hexval :: "nat \<Rightarrow> nat option" where
  "hexval c =
    (if 48 \<le> c \<and> c \<le> 57 then Some (c - 48)
     else if 97 \<le> c \<and> c \<le> 102 then Some (c - 87)
     else if 65 \<le> c \<and> c \<le> 70 then Some (c - 55)
     else None)"

text \<open>The four hexadecimal digits after \<^verbatim>\<open>\u\<close>.\<close>

definition decode_uXXXX :: "pystr \<Rightarrow> nat option" where
  "decode_uXXXX s =
    (case s of
       a # b # c # d # _ \<Rightarrow>
         Option.bind (hexval a) (\<lambda>x.
         Option.bind (hexval b) (\<lambda>y.
         Option.bind (hexval c) (\<lambda>z.
         Option.bind (hexval d) (\<lambda>w.
           Some (((x * 16 + y) * 16 + z) * 16 + w)))))
     | _ \<Rightarrow> None)"

definition backslash :: "nat \<Rightarrow> nat option" where
  "backslash e =
    (if e = 34 then Some 34
     else if e = 92 then Some 92
     else if e = 47 then Some 47
     else if e = 98 then Some 8
     else if e = 102 then Some 12
     else if e = 110 then Some 10
     else if e = 114 then Some 13
     else if e = 116 then Some 9
     else None)"

definition is_high_surrogate :: "nat \<Rightarrow> bool" where
  "is_high_surrogate c = (55296 \<le> c \<and> c \<le> 56319)"

definition is_low_surrogate :: "nat \<Rightarrow> bool" where
  "is_low_surrogate c = (56320 \<le> c \<and> c \<le> 57343)"

text \<open>
  After \<^verbatim>\<open>\u\<close>: a \<^verbatim>\<open>\u\<close> escape of a high surrogate that is followed by a \<^verbatim>\<open>\u\<close> escape of a
  low surrogate is one code point; any other escaped surrogate stands alone. Four
  characters that are not hexadecimal digits are an error, also in the second escape.
\<close>

definition scan_unicode_escape :: "pystr \<Rightarrow> (nat \<times> pystr) option" where
  "scan_unicode_escape s =
    (case decode_uXXXX s of
       None \<Rightarrow> None
     | Some uni \<Rightarrow>
         if is_high_surrogate uni \<and> starts_with [92, 117] (drop 4 s) then
           (case decode_uXXXX (drop 6 s) of
              None \<Rightarrow> None
            | Some uni2 \<Rightarrow>
                if is_low_surrogate uni2
                then Some (65536 + (uni - 55296) * 1024 + (uni2 - 56320), drop 10 s)
                else Some (uni, drop 4 s))
         else Some (uni, drop 4 s))"

text \<open>
  One character of a string's content: itself, or the character an escape stands for. In
  strict mode (the default) a control character inside a string is an error. The quote
  that ends the string is handled by \<open>scanstring\<close>.
\<close>

definition scan_char :: "pystr \<Rightarrow> (nat \<times> pystr) option" where
  "scan_char s =
    (case s of
       [] \<Rightarrow> None
     | c # r \<Rightarrow>
         if c = 92 then
           (case r of
              [] \<Rightarrow> None
            | e # r1 \<Rightarrow>
                if e = 117 then scan_unicode_escape r1
                else map_option (\<lambda>ch. (ch, r1)) (backslash e))
         else if c < 32 then None
         else Some (c, r))"

lemma decode_uXXXX_length: "decode_uXXXX s = Some u \<Longrightarrow> 4 \<le> length s"
  by (auto simp: decode_uXXXX_def split: list.splits)

lemma scan_unicode_escape_shorter:
  "scan_unicode_escape s = Some (ch, r) \<Longrightarrow> length r < length s"
  by (auto simp: scan_unicode_escape_def split: option.splits if_splits
      dest!: decode_uXXXX_length)

lemma scan_char_shorter: "scan_char s = Some (ch, r) \<Longrightarrow> length r < length s"
  by (auto simp: scan_char_def split: list.splits if_splits
      dest!: scan_unicode_escape_shorter)

text \<open>
  \<open>scanstring\<close> starts after the opening quote and returns the string and the text after
  the closing quote.
\<close>

function scanstring :: "pystr \<Rightarrow> (pystr \<times> pystr) option" where
  "scanstring s =
    (case s of
       [] \<Rightarrow> None
     | c # r \<Rightarrow>
         if c = 34 then Some ([], r)
         else
           (case scan_char s of
              None \<Rightarrow> None
            | Some (ch, r1) \<Rightarrow> map_option (apfst (Cons ch)) (scanstring r1)))"
  by pat_completeness auto
termination
  by (relation "measure length") (auto dest: scan_char_shorter)

declare scanstring.simps [simp del]

subsection \<open>Numbers\<close>

text \<open>
  The scanner's number pattern is
  \<^verbatim>\<open>(-?(?:0|[1-9][0-9]*))(\.[0-9]+)?([eE][-+]?[0-9]+)?\<close>: an integer part, an optional
  fraction, an optional exponent, each matched greedily. With a fraction or an exponent
  the token is given to \<^verbatim>\<open>float\<close>, otherwise to \<^verbatim>\<open>int\<close>.
\<close>

definition is_digit :: "nat \<Rightarrow> bool" where
  "is_digit c = (48 \<le> c \<and> c \<le> 57)"

definition match_integer :: "pystr \<Rightarrow> (pystr \<times> pystr) option" where
  "match_integer s =
    (let sign = (if starts_with [45] s then [45] else []) in
     case drop (length sign) s of
       [] \<Rightarrow> None
     | c # r \<Rightarrow>
         if c = 48 then Some (sign @ [48], r)
         else if 49 \<le> c \<and> c \<le> 57
         then Some (sign @ c # takeWhile is_digit r, dropWhile is_digit r)
         else None)"

definition match_frac :: "pystr \<Rightarrow> pystr \<times> pystr" where
  "match_frac s =
    (case s of
       c # d # r \<Rightarrow>
         if c = 46 \<and> is_digit d
         then (c # d # takeWhile is_digit r, dropWhile is_digit r)
         else ([], s)
     | _ \<Rightarrow> ([], s))"

definition match_exp :: "pystr \<Rightarrow> pystr \<times> pystr" where
  "match_exp s =
    (case s of
       [] \<Rightarrow> ([], s)
     | e # r \<Rightarrow>
         if e = 101 \<or> e = 69 then
           (let sign = (case r of [] \<Rightarrow> [] | x # _ \<Rightarrow> if x = 45 \<or> x = 43 then [x] else []) in
            case drop (length sign) r of
              [] \<Rightarrow> ([], s)
            | d # r1 \<Rightarrow>
                if is_digit d
                then (e # sign @ d # takeWhile is_digit r1, dropWhile is_digit r1)
                else ([], s))
         else ([], s))"

definition nat_of_digits :: "pystr \<Rightarrow> nat" where
  "nat_of_digits ds = foldl (\<lambda>a c. 10 * a + (c - 48)) 0 ds"

definition int_of_str :: "pystr \<Rightarrow> int" where
  "int_of_str s =
    (case s of
       [] \<Rightarrow> 0
     | c # r \<Rightarrow> if c = 45 then - int (nat_of_digits r) else int (nat_of_digits s))"

definition match_number :: "'f float_codec \<Rightarrow> pystr \<Rightarrow> ('f json \<times> pystr) option" where
  "match_number fc s =
    (case match_integer s of
       None \<Rightarrow> None
     | Some (integer, s1) \<Rightarrow>
         (case match_frac s1 of (frac, s2) \<Rightarrow>
          case match_exp s2 of (ex, s3) \<Rightarrow>
            if frac \<noteq> [] \<or> ex \<noteq> []
            then Some (JFloat (float_of_str fc (map char_of (integer @ frac @ ex))), s3)
            else Some (JInt (int_of_str integer), s3)))"

subsection \<open>Values\<close>

lemma length_skip_ws: "length (skip_ws s) \<le> length s"
  by (simp add: skip_ws_def length_dropWhile_le)

lemma scanstring_shorter: "scanstring s = Some (str, r) \<Longrightarrow> length r < length s"
proof (induction s arbitrary: str rule: scanstring.induct)
  case (1 s)
  show ?case
  proof (cases s)
    case Nil
    with "1.prems" show ?thesis by (simp add: scanstring.simps)
  next
    case (Cons c r0)
    show ?thesis
    proof (cases "c = 34")
      case True
      with Cons "1.prems" show ?thesis by (simp add: scanstring.simps)
    next
      case False
      with Cons "1.prems" obtain ch r1 str1 where
        sc: "scan_char s = Some (ch, r1)" and rec: "scanstring r1 = Some (str1, r)"
        by (subst (asm) scanstring.simps) (auto split: option.splits)
      from "1.IH" [OF Cons False sc refl rec] scan_char_shorter [OF sc]
      show ?thesis by simp
    qed
  qed
qed

text \<open>
  \<open>scan_once\<close> reads one value at the head of the text; \<open>scan_array_items\<close> is the loop of
  \<^verbatim>\<open>JSONArray\<close>, entered at the first item, and \<open>scan_object_items\<close> the loop of
  \<^verbatim>\<open>JSONObject\<close>, entered after the opening quote of a key. The two tests
  \<open>length r < length s\<close> always succeed (lemma \<open>scan_once_shorter\<close> below): a value is at
  least one character long. They are what the termination proof rests on.
\<close>

function scan_once :: "'f float_codec \<Rightarrow> pystr \<Rightarrow> ('f json \<times> pystr) option"
  and scan_array_items :: "'f float_codec \<Rightarrow> pystr \<Rightarrow> ('f json list \<times> pystr) option"
  and scan_object_items ::
    "'f float_codec \<Rightarrow> pystr \<Rightarrow> ((pystr \<times> 'f json) list \<times> pystr) option"
where
  "scan_once fc s =
    (case s of
       [] \<Rightarrow> None
     | c # r \<Rightarrow>
         if c = 34 then
           (case scanstring r of
              None \<Rightarrow> None
            | Some (str, r1) \<Rightarrow> Some (JStr str, r1))
         else if c = 123 then
           (case skip_ws r of
              [] \<Rightarrow> None
            | c1 # r1 \<Rightarrow>
                if c1 = 125 then Some (JObj [], r1)
                else if c1 = 34 then
                  (case scan_object_items fc r1 of
                     None \<Rightarrow> None
                   | Some (pairs, r2) \<Rightarrow> Some (JObj (dict_of_pairs pairs), r2))
                else None)
         else if c = 91 then
           (case skip_ws r of
              [] \<Rightarrow> None
            | c1 # r1 \<Rightarrow>
                if c1 = 93 then Some (JArr [], r1)
                else
                  (case scan_array_items fc (c1 # r1) of
                     None \<Rightarrow> None
                   | Some (vs, r2) \<Rightarrow> Some (JArr vs, r2)))
         else if c = 110 \<and> starts_with (pystr ''null'') s then Some (JNull, drop 4 s)
         else if c = 116 \<and> starts_with (pystr ''true'') s then Some (JBool True, drop 4 s)
         else if c = 102 \<and> starts_with (pystr ''false'') s then Some (JBool False, drop 5 s)
         else
           (case match_number fc s of
              Some x \<Rightarrow> Some x
            | None \<Rightarrow>
                if c = 78 \<and> starts_with (pystr ''NaN'') s then Some (JFloat NaN, drop 3 s)
                else if c = 73 \<and> starts_with (pystr ''Infinity'') s
                then Some (JFloat PosInf, drop 8 s)
                else if c = 45 \<and> starts_with (pystr ''-Infinity'') s
                then Some (JFloat NegInf, drop 9 s)
                else None))"
| "scan_array_items fc s =
    (case scan_once fc s of
       None \<Rightarrow> None
     | Some (v, r) \<Rightarrow>
         if length r < length s then
           (case skip_ws r of
              [] \<Rightarrow> None
            | c # r1 \<Rightarrow>
                if c = 93 then Some ([v], r1)
                else if c = 44 then
                  (case scan_array_items fc (skip_ws r1) of
                     None \<Rightarrow> None
                   | Some (vs, r2) \<Rightarrow> Some (v # vs, r2))
                else None)
         else None)"
| "scan_object_items fc s =
    (case scanstring s of
       None \<Rightarrow> None
     | Some (k, r) \<Rightarrow>
         (case skip_ws r of
            [] \<Rightarrow> None
          | c # r1 \<Rightarrow>
              if c \<noteq> 58 then None
              else
                (case scan_once fc (skip_ws r1) of
                   None \<Rightarrow> None
                 | Some (v, r2) \<Rightarrow>
                     if length r2 < length s then
                       (case skip_ws r2 of
                          [] \<Rightarrow> None
                        | c2 # r3 \<Rightarrow>
                            if c2 = 125 then Some ([(k, v)], r3)
                            else if c2 = 44 then
                              (case skip_ws r3 of
                                 [] \<Rightarrow> None
                               | c3 # r4 \<Rightarrow>
                                   if c3 = 34 then
                                     (case scan_object_items fc r4 of
                                        None \<Rightarrow> None
                                      | Some (pairs, r5) \<Rightarrow> Some ((k, v) # pairs, r5))
                                   else None)
                            else None)
                     else None)))"
  by pat_completeness auto

termination
proof (relation "measure (\<lambda>x. case x of
          Inl (fc, s) \<Rightarrow> 2 * length s
        | Inr (Inl (fc, s)) \<Rightarrow> 2 * length s + 1
        | Inr (Inr (fc, s)) \<Rightarrow> 2 * length s + 1)", goal_cases)
  case 1
  show ?case by simp
next
  case (2 fc s c r c1 r1)
  from length_skip_ws [of r] \<open>skip_ws r = c1 # r1\<close> \<open>s = c # r\<close>
  show ?case by simp
next
  case (3 fc s c r c1 r1)
  from length_skip_ws [of r] \<open>skip_ws r = c1 # r1\<close> \<open>s = c # r\<close>
  show ?case by simp
next
  case (4 fc s)
  show ?case by simp
next
  case (5 fc s x2 v r c r1)
  from length_skip_ws [of r] length_skip_ws [of r1] \<open>skip_ws r = c # r1\<close> \<open>length r < length s\<close>
  show ?case by simp
next
  case (6 fc s x2 k r c r1)
  from length_skip_ws [of r] length_skip_ws [of r1] \<open>skip_ws r = c # r1\<close>
    scanstring_shorter [of s k r] \<open>scanstring s = Some x2\<close> \<open>(k, r) = x2\<close>
  show ?case by simp
next
  case (7 fc s x2 k r c r1 x2a v r2 c2 r3 c3 r4)
  from length_skip_ws [of r2] length_skip_ws [of r3] \<open>skip_ws r2 = c2 # r3\<close>
    \<open>skip_ws r3 = c3 # r4\<close> \<open>length r2 < length s\<close>
  show ?case by simp
qed

declare scan_once.simps [simp del] scan_array_items.simps [simp del]
  scan_object_items.simps [simp del]

text \<open>
  \<^verbatim>\<open>json.loads\<close>: a leading byte order mark is refused, white space around the document is
  skipped, and anything after the document is an error (\<^verbatim>\<open>Extra data\<close>).
\<close>

definition loads :: "'f float_codec \<Rightarrow> pystr \<Rightarrow> 'f json option" where
  "loads fc s =
    (if starts_with [65279] s then None
     else
       (case scan_once fc (skip_ws s) of
          None \<Rightarrow> None
        | Some (v, r) \<Rightarrow> if skip_ws r = [] then Some v else None))"

section \<open>The script: \<^verbatim>\<open>create_claude_config\<close>\<close>

text \<open>
  The file system as the script sees it: whether the configuration directory exists, and
  the bytes of the configuration file if there is one. The operations that can fail with
  an \<^verbatim>\<open>OSError\<close> take their outcome from a record of faults: the error number each of
  them raises, if any. A write that fails leaves the first bytes of the text in the file
  (opening for writing has already truncated it). The home directory, which the script
  asks \<^verbatim>\<open>Path.home()\<close> for, is a parameter, and \<^verbatim>\<open>config_file.exists()\<close> answers from the
  state of the file system.
\<close>

type_synonym path = "string list"

record filesystem =
  fs_dir :: bool
  fs_file :: "string option"

record faults =
  mkdir_error :: "nat option"
  read_error :: "nat option"
  open_error :: "nat option"
  write_error :: "(nat \<times> nat) option"

definition no_faults :: faults where
  "no_faults = \<lparr>mkdir_error = None, read_error = None, open_error = None, write_error = None\<rparr>"

text \<open>
  What a run leaves behind: the path returned or the exception raised, the file system,
  the lines printed, and the value handed to \<^verbatim>\<open>json.dump\<close> (if the run got that far).
\<close>

record 'f outcome =
  result :: "pyerror + path"
  fs_after :: filesystem
  stdout :: "string list"
  dumped :: "'f json option"

text \<open>Lines 22 and 27: the path, as its components below the root.\<close>

definition config_dir :: "path \<Rightarrow> path" where
  "config_dir home = home @ [''.config'', ''claude-desktop'']"

definition config_file :: "path \<Rightarrow> path" where
  "config_file home = config_dir home @ [''claude_desktop_config.json'']"

definition path_str :: "path \<Rightarrow> string" where
  "path_str p = concat (map (\<lambda>c. ''/'' @ c) p)"

text \<open>Lines 30 to 49: the template, and the entries under its one key.\<close>

definition mcpServers :: pystr where
  "mcpServers = pystr ''mcpServers''"

definition new_entries :: "(pystr \<times> 'f json) list" where
  "new_entries =
    [(pystr ''authentik-full'', JObj
       [(pystr ''command'', JStr (pystr ''uvx'')),
        (pystr ''args'', JArr [JStr (pystr ''authentik-mcp'')]),
        (pystr ''env'', JObj
          [(pystr ''AUTHENTIK_BASE_URL'', JStr (pystr ''https://your-authentik-instance.com'')),
           (pystr ''AUTHENTIK_TOKEN'', JStr (pystr ''your-api-token-here''))])]),
     (pystr ''authentik-diag'', JObj
       [(pystr ''command'', JStr (pystr ''uvx'')),
        (pystr ''args'', JArr [JStr (pystr ''authentik-diag-mcp'')]),
        (pystr ''env'', JObj
          [(pystr ''AUTHENTIK_BASE_URL'', JStr (pystr ''https://your-authentik-instance.com'')),
           (pystr ''AUTHENTIK_TOKEN'', JStr (pystr ''your-readonly-token-here''))])])]"

definition config_template :: "'f json" where
  "config_template = JObj [(mcpServers, JObj new_entries)]"

text \<open>
  Lines 58 to 62, on the value \<^verbatim>\<open>json.load\<close> returned. The code assumes a dictionary whose
  \<^verbatim>\<open>mcpServers\<close> entry, if any, is a dictionary. On a list or a string the membership test
  of line 58 succeeds and the subscript of line 59 or 61 raises \<^verbatim>\<open>TypeError\<close>; on a number,
  a boolean or \<^verbatim>\<open>None\<close> the membership test itself raises it. An \<^verbatim>\<open>mcpServers\<close> entry that
  is not a dictionary has no \<^verbatim>\<open>update\<close> method: \<^verbatim>\<open>AttributeError\<close>.
\<close>

fun merge_existing :: "'f json \<Rightarrow> pyerror + 'f json" where
  "merge_existing (JObj d) =
    (let d1 = (if \<not> dict_contains mcpServers d then dict_set mcpServers (JObj []) d else d) in
     case dict_get mcpServers d1 of
       None \<Rightarrow> Inl KeyError
     | Some (JObj servers) \<Rightarrow>
         Inr (JObj (dict_set mcpServers (JObj (dict_update servers new_entries)) d1))
     | Some _ \<Rightarrow> Inl AttributeError)"
| "merge_existing (JArr xs) =
    (if JStr mcpServers \<notin> set xs then Inl TypeError else Inl TypeError)"
| "merge_existing (JStr s) =
    (if \<not> str_contains mcpServers s then Inl TypeError else Inl TypeError)"
| "merge_existing _ = Inl TypeError"

definition warning :: string where
  "warning = ''Warning: Existing config file is not valid JSON, creating new one''"

text \<open>
  Lines 51 to 65: the configuration to write and what was printed on the way. Only
  \<^verbatim>\<open>json.JSONDecodeError\<close> is caught; the template is then written as if there had been no
  file.
\<close>

definition load_config ::
  "'f float_codec \<Rightarrow> faults \<Rightarrow> filesystem \<Rightarrow> pyerror + ('f json \<times> string list)" where
  "load_config fc flt fs =
    (case fs_file fs of
       None \<Rightarrow> Inr (config_template, [])
     | Some content \<Rightarrow>
         (case read_error flt of
            Some e \<Rightarrow> Inl (OSError e)
          | None \<Rightarrow>
              (case utf8_decode content of
                 None \<Rightarrow> Inl UnicodeDecodeError
               | Some s \<Rightarrow>
                   (case loads fc s of
                      None \<Rightarrow> Inr (config_template, [warning])
                    | Some existing_config \<Rightarrow>
                        (case merge_existing existing_config of
                           Inl err \<Rightarrow> Inl err
                         | Inr merged \<Rightarrow> Inr (merged, []))))))"

text \<open>
  Line 69, on the file already opened and truncated: the error raised, if any, and the
  bytes the file holds afterwards.
\<close>

definition write_text :: "faults \<Rightarrow> pystr \<Rightarrow> pyerror option \<times> string" where
  "write_text flt s =
    (case utf8_encode s of
       None \<Rightarrow> (Some UnicodeEncodeError, [])
     | Some bytes \<Rightarrow>
         (case write_error flt of
            Some (e, n) \<Rightarrow> (Some (OSError e), take n bytes)
          | None \<Rightarrow> (None, bytes)))"

definition next_steps :: "path \<Rightarrow> string list" where
  "next_steps p =
    [''Configuration written to: '' @ path_str p,
     [CHR 0x0A] @ ''Next steps:'',
     ''1. Edit the configuration file to add your actual Authentik URL and tokens'',
     ''2. Restart Claude Desktop'',
     ''3. The Authentik tools should be available in Claude'']"

definition create_claude_config ::
  "'f float_codec \<Rightarrow> path \<Rightarrow> faults \<Rightarrow> filesystem \<Rightarrow> 'f outcome" where
  "create_claude_config fc home flt fs =
    (case mkdir_error flt of
       Some e \<Rightarrow> \<lparr>result = Inl (OSError e), fs_after = fs, stdout = [], dumped = None\<rparr>
     | None \<Rightarrow>
         (let fs1 = fs\<lparr>fs_dir := True\<rparr> in
          case load_config fc flt fs1 of
            Inl err \<Rightarrow> \<lparr>result = Inl err, fs_after = fs1, stdout = [], dumped = None\<rparr>
          | Inr (cfg, out) \<Rightarrow>
              (case open_error flt of
                 Some e \<Rightarrow>
                   \<lparr>result = Inl (OSError e), fs_after = fs1, stdout = out, dumped = None\<rparr>
               | None \<Rightarrow>
                   (case write_text flt (dumps fc cfg) of
                      (Some err, bytes) \<Rightarrow>
                        \<lparr>result = Inl err, fs_after = fs1\<lparr>fs_file := Some bytes\<rparr>,
                         stdout = out, dumped = Some cfg\<rparr>
                    | (None, bytes) \<Rightarrow>
                        \<lparr>result = Inr (config_file home),
                         fs_after = fs1\<lparr>fs_file := Some bytes\<rparr>,
                         stdout = out @ next_steps (config_file home), dumped = Some cfg\<rparr>))))"

section \<open>Well-formed values\<close>

text \<open>
  What holds of every value the script hands to \<^verbatim>\<open>json.dump\<close>. A string holds code points
  up to U+10FFFF and never a high surrogate directly followed by a low one (the decoder
  joins such a pair of escapes into one code point, and a file cannot hold a surrogate
  unescaped). The keys of a dictionary are distinct. A finite float prints as a number
  with a fraction or an exponent, from which \<^verbatim>\<open>float\<close> gives the same float again.
\<close>

fun wf_str :: "pystr \<Rightarrow> bool" where
  "wf_str [] = True"
| "wf_str [c] = (c \<le> 1114111)"
| "wf_str (c # d # r) =
    (c \<le> 1114111 \<and> \<not> (is_high_surrogate c \<and> is_low_surrogate d) \<and> wf_str (d # r))"

definition float_token :: "pystr \<Rightarrow> bool" where
  "float_token t =
    (case match_integer t of
       None \<Rightarrow> False
     | Some (ip, s1) \<Rightarrow>
         (case match_frac s1 of (fr, s2) \<Rightarrow>
          case match_exp s2 of (ex, s3) \<Rightarrow> s3 = [] \<and> (fr \<noteq> [] \<or> ex \<noteq> [])))"

definition float_ok :: "'f float_codec \<Rightarrow> 'f \<Rightarrow> bool" where
  "float_ok fc x =
    (float_token (pystr (float_repr fc x)) \<and> float_of_str fc (float_repr fc x) = Finite x)"

fun wf_json :: "'f float_codec \<Rightarrow> 'f json \<Rightarrow> bool" where
  "wf_json fc (JStr s) = wf_str s"
| "wf_json fc (JFloat x) = (case x of Finite y \<Rightarrow> float_ok fc y | _ \<Rightarrow> True)"
| "wf_json fc (JArr xs) = (\<forall>x \<in> set xs. wf_json fc x)"
| "wf_json fc (JObj kvs) =
    (distinct (map fst kvs) \<and> (\<forall>kv \<in> set kvs. wf_str (fst kv) \<and> wf_json fc (snd kv)))"
| "wf_json fc _ = True"

definition float_codec_ok :: "'f float_codec \<Rightarrow> bool" where
  "float_codec_ok fc = (\<forall>x. float_ok fc x)"

definition valid_text :: "pystr \<Rightarrow> bool" where
  "valid_text s = (\<forall>c \<in> set s. c \<le> 1114111 \<and> \<not> (55296 \<le> c \<and> c \<le> 57343))"

text \<open>
  \<^verbatim>\<open>float.__repr__\<close> is the shortest decimal text that \<^verbatim>\<open>float\<close> reads back as the same
  number, and it always has a fraction or an exponent. That is the one assumption on
  the interpreter's floats, needed where a configuration read from a file is written
  back.
\<close>

section \<open>Dictionaries: lookup after assignment and update\<close>

lemma map_of_dict_set: "map_of (dict_set k v d) k' = (if k' = k then Some v else map_of d k')"
  by (induction d) auto

lemma dict_get_set: "dict_get k' (dict_set k v d) = (if k' = k then Some v else dict_get k' d)"
  by (simp add: dict_get_def map_of_dict_set)

lemma dict_contains_get: "dict_contains k d \<longleftrightarrow> dict_get k d \<noteq> None"
  by (simp add: dict_contains_def dict_get_def map_of_eq_None_iff)

lemma dict_get_update:
  "distinct (map fst ps) \<Longrightarrow>
   dict_get k (dict_update d ps) = (case dict_get k ps of Some v \<Rightarrow> Some v | None \<Rightarrow> dict_get k d)"
proof (induction ps arbitrary: d)
  case Nil
  then show ?case by (simp add: dict_get_def)
next
  case (Cons p ps)
  from Cons.prems have "fst p \<notin> fst ` set ps" and "distinct (map fst ps)" by auto
  then show ?case
    using Cons.IH [of "dict_set (fst p) (snd p) d"]
    by (cases p) (auto simp: map_of_dict_set dict_get_def map_of_eq_None_iff [symmetric]
        split: option.splits)
qed

lemma keys_dict_set: "fst ` set (dict_set k v d) = insert k (fst ` set d)"
  by (induction d) auto

lemma distinct_dict_set: "distinct (map fst d) \<Longrightarrow> distinct (map fst (dict_set k v d))"
  by (induction d) (auto simp: keys_dict_set)

lemma distinct_dict_update: "distinct (map fst d) \<Longrightarrow> distinct (map fst (dict_update d ps))"
  by (induction ps arbitrary: d) (auto simp: distinct_dict_set)

lemma set_dict_set: "set (dict_set k v d) \<subseteq> insert (k, v) (set d)"
  by (induction d) auto

lemma set_dict_update: "set (dict_update d ps) \<subseteq> set d \<union> set ps"
proof (induction ps arbitrary: d)
  case Nil
  show ?case by simp
next
  case (Cons p ps)
  from Cons.IH [of "dict_set (fst p) (snd p) d"] set_dict_set [of "fst p" "snd p" d]
  show ?case by auto
qed

lemma dict_of_pairs_distinct: "distinct (map fst ps) \<Longrightarrow> dict_of_pairs ps = ps"
proof -
  have "distinct (map fst (d @ ps)) \<Longrightarrow> dict_update d ps = d @ ps" for d :: "(pystr \<times> 'a) list"
  proof (induction ps arbitrary: d)
    case Nil
    show ?case by simp
  next
    case (Cons p ps)
    have "dict_set (fst p) (snd p) d = d @ [p]"
      using Cons.prems by (induction d) auto
    with Cons.IH [of "d @ [p]"] Cons.prems show ?case by simp
  qed
  from this [of "[]" ] show "distinct (map fst ps) \<Longrightarrow> dict_of_pairs ps = ps"
    by (simp add: dict_of_pairs_def)
qed

section \<open>UTF-8: ASCII text and decoded text\<close>

lemma utf8_encode_ascii: "\<forall>c \<in> set s. c < 128 \<Longrightarrow> utf8_encode s = Some (map char_of s)"
  by (induction s) (auto simp: utf8_encode_char_def)

lemma utf8_decode_ascii: "\<forall>c \<in> set s. c < 128 \<Longrightarrow> utf8_decode (map char_of s) = Some s"
proof (induction s)
  case Nil
  show ?case by (simp add: utf8_decode.simps)
next
  case (Cons c s)
  then have "c < 128" by simp
  then have "utf8_next (map char_of (c # s)) = Some (c, map char_of s)"
    by (simp add: utf8_next_def)
  with Cons show ?case
    by (subst utf8_decode.simps) simp
qed

lemma is_cont_bound: "is_cont b \<Longrightarrow> cont b \<le> 63"
  unfolding is_cont_def cont_def by arith

lemma utf8_next_valid:
  "utf8_next bs = Some (cp, r) \<Longrightarrow> cp \<le> 1114111 \<and> \<not> (55296 \<le> cp \<and> cp \<le> 57343)"
  by (auto simp: utf8_next_def Let_def split: list.splits if_splits dest!: is_cont_bound)

lemma utf8_decode_valid: "utf8_decode bs = Some s \<Longrightarrow> valid_text s"
proof (induction bs arbitrary: s rule: utf8_decode.induct)
  case (1 bs)
  show ?case
  proof (cases "bs = []")
    case True
    with "1.prems" show ?thesis by (simp add: utf8_decode.simps valid_text_def)
  next
    case False
    with "1.prems" obtain cp r s1 where
      nx: "utf8_next bs = Some (cp, r)" and rec: "utf8_decode r = Some s1" and s: "s = cp # s1"
      by (subst (asm) utf8_decode.simps) (auto split: option.splits)
    from "1.IH" [OF False nx refl rec] utf8_next_valid [OF nx] s
    show ?thesis by (simp add: valid_text_def)
  qed
qed

section \<open>Numbers: the lexer on a token followed by more text\<close>

text \<open>
  The text after a number token must not continue it. In the encoder's output a number
  is followed by a comma, a newline or nothing.
\<close>

definition number_end :: "pystr \<Rightarrow> bool" where
  "number_end rest =
    (case rest of
       [] \<Rightarrow> True
     | c # _ \<Rightarrow> \<not> is_digit c \<and> c \<noteq> 46 \<and> c \<noteq> 101 \<and> c \<noteq> 69 \<and> c \<noteq> 43 \<and> c \<noteq> 45)"

lemma takeWhile_digit_append:
  "number_end rest \<Longrightarrow> takeWhile is_digit (xs @ rest) = takeWhile is_digit xs"
  by (induction xs) (auto simp: number_end_def split: list.splits)

lemma dropWhile_digit_append:
  "number_end rest \<Longrightarrow> dropWhile is_digit (xs @ rest) = dropWhile is_digit xs @ rest"
  by (induction xs) (auto simp: number_end_def split: list.splits)

lemma match_integer_append:
  assumes "match_integer t = Some (ip, s1)" and "number_end rest"
  shows "match_integer (t @ rest) = Some (ip, s1 @ rest)"
proof (cases "starts_with [45] t")
  case True
  then obtain t1 where t: "t = 45 # t1" by (cases t) auto
  with assms(1) obtain c r where "t1 = c # r"
    by (cases t1) (auto simp: match_integer_def Let_def)
  with t assms show ?thesis
    by (auto simp: match_integer_def Let_def takeWhile_digit_append dropWhile_digit_append
        split: if_splits)
next
  case False
  with assms(1) obtain c r where t: "t = c # r" and "c \<noteq> 45"
    by (cases t) (auto simp: match_integer_def Let_def)
  with assms show ?thesis
    by (auto simp: match_integer_def Let_def takeWhile_digit_append dropWhile_digit_append
        split: if_splits)
qed

lemma match_frac_append:
  assumes "match_frac s = (fr, s2)" and "number_end rest"
  shows "match_frac (s @ rest) = (fr, s2 @ rest)"
proof (cases s)
  case Nil
  with assms show ?thesis
    by (auto simp: match_frac_def number_end_def split: list.splits)
next
  case (Cons c r)
  note c = this
  show ?thesis
  proof (cases r)
    case Nil
    with c assms show ?thesis
      by (auto simp: match_frac_def number_end_def split: list.splits)
  next
    case (Cons d r1)
    with c assms show ?thesis
      by (auto simp: match_frac_def takeWhile_digit_append dropWhile_digit_append
          split: if_splits)
  qed
qed

lemma match_exp_append:
  assumes "match_exp s = (ex, s3)" and "number_end rest"
  shows "match_exp (s @ rest) = (ex, s3 @ rest)"
proof (cases s)
  case Nil
  with assms show ?thesis
    by (auto simp: match_exp_def number_end_def split: list.splits)
next
  case (Cons e r)
  note e = this
  show ?thesis
  proof (cases "e = 101 \<or> e = 69")
    case False
    with e assms show ?thesis by (auto simp: match_exp_def)
  next
    case True
    note isE = this
    show ?thesis
    proof (cases r)
      case Nil
      with e isE assms show ?thesis
        by (auto simp: match_exp_def number_end_def is_digit_def split: list.splits)
    next
      case (Cons x r1)
      note x = this
      show ?thesis
      proof (cases "x = 45 \<or> x = 43")
        case False
        with e isE x assms show ?thesis
          by (auto simp: match_exp_def takeWhile_digit_append dropWhile_digit_append
              split: if_splits)
      next
        case True
        note sg = this
        show ?thesis
        proof (cases r1)
          case Nil
          with e isE x sg assms show ?thesis
            by (auto simp: match_exp_def number_end_def split: list.splits)
        next
          case (Cons d r2)
          with e isE x sg assms show ?thesis
            by (auto simp: match_exp_def takeWhile_digit_append dropWhile_digit_append
                split: if_splits)
        qed
      qed
    qed
  qed
qed

lemma match_integer_text: "match_integer t = Some (ip, s1) \<Longrightarrow> t = ip @ s1"
  by (cases t; cases "tl t")
    (auto simp: match_integer_def Let_def split: if_splits list.splits)

lemma match_frac_text: "match_frac s = (fr, s2) \<Longrightarrow> s = fr @ s2"
  by (auto simp: match_frac_def split: if_splits list.splits)

lemma match_exp_text: "match_exp s = (ex, s3) \<Longrightarrow> s = ex @ s3"
  by (auto simp: match_exp_def Let_def split: if_splits list.splits)

lemma match_number_append:
  assumes "match_integer t = Some (ip, s1)" and "match_frac s1 = (fr, s2)"
    and "match_exp s2 = (ex, [])" and "number_end rest"
  shows "match_number fc (t @ rest) =
    (if fr \<noteq> [] \<or> ex \<noteq> []
     then Some (JFloat (float_of_str fc (map char_of t)), rest)
     else Some (JInt (int_of_str ip), rest))"
proof -
  from assms(1-3) have t: "t = ip @ fr @ ex"
    by (auto dest!: match_integer_text match_frac_text match_exp_text)
  from match_integer_append [OF assms(1,4)] match_frac_append [OF assms(2,4)]
    match_exp_append [OF assms(3,4)] t
  show ?thesis by (simp add: match_number_def)
qed

lemma match_integer_hd:
  "match_integer t = Some (ip, s1) \<Longrightarrow> \<exists>c r. t = c # r \<and> (c = 45 \<or> is_digit c)"
  by (cases t) (auto simp: match_integer_def Let_def is_digit_def split: if_splits list.splits)

subsection \<open>Integers print and read back\<close>

lemma show_nat_digits: "\<forall>c \<in> set (show_nat n). is_digit c"
proof (induction n rule: show_nat.induct)
  case (1 n)
  show ?case
    by (subst show_nat.simps) (use 1 in \<open>auto simp: is_digit_def\<close>)
qed

lemma show_nat_nonempty: "show_nat n \<noteq> []"
  by (subst show_nat.simps) simp

lemma show_nat_hd: "hd (show_nat n) = 48 \<longleftrightarrow> n = 0"
proof (induction n rule: show_nat.induct)
  case (1 n)
  show ?case
  proof (cases "n < 10")
    case True
    then show ?thesis by (subst show_nat.simps) simp
  next
    case False
    with 1 show ?thesis
      by (subst show_nat.simps) (simp add: show_nat_nonempty)
  qed
qed

lemma nat_of_digits_show_nat: "nat_of_digits (show_nat n) = n"
proof (induction n rule: show_nat.induct)
  case (1 n)
  show ?case
  proof (cases "n < 10")
    case True
    then show ?thesis by (subst show_nat.simps) (simp add: nat_of_digits_def)
  next
    case False
    with 1 have "nat_of_digits (show_nat (n div 10)) = n div 10" by simp
    with False show ?thesis
      by (subst show_nat.simps) (simp add: nat_of_digits_def)
  qed
qed

lemma match_integer_digits:
  assumes "\<forall>c \<in> set ds. is_digit c" and "ds \<noteq> []" and "hd ds = 48 \<longrightarrow> ds = [48]"
  shows "match_integer ds = Some (ds, [])" and "match_integer (45 # ds) = Some (45 # ds, [])"
proof -
  from assms obtain c r where ds: "ds = c # r" by (cases ds) auto
  with assms have c: "is_digit c" and r: "\<forall>x \<in> set r. is_digit x" and z: "c = 48 \<longrightarrow> r = []"
    by auto
  from r have tw: "takeWhile is_digit r = r" "dropWhile is_digit r = []" by auto
  from c have "c \<noteq> 45" by (auto simp: is_digit_def)
  with c z tw ds show "match_integer ds = Some (ds, [])"
    by (auto simp: match_integer_def Let_def is_digit_def)
  from c z tw ds show "match_integer (45 # ds) = Some (45 # ds, [])"
    by (auto simp: match_integer_def Let_def is_digit_def)
qed

lemma show_nat_zero: "show_nat 0 = [48]"
  by (subst show_nat.simps) simp

lemma match_integer_show_int: "match_integer (show_int i) = Some (show_int i, [])"
proof -
  have *: "hd (show_nat n) = 48 \<longrightarrow> show_nat n = [48]" for n
    using show_nat_hd [of n] show_nat_zero by auto
  show ?thesis
    using match_integer_digits [OF show_nat_digits show_nat_nonempty *]
    by (simp add: show_int_def)
qed

lemma int_of_str_show_int: "int_of_str (show_int i) = i"
proof (cases "i < 0")
  case True
  then show ?thesis
    by (simp add: show_int_def int_of_str_def nat_of_digits_show_nat)
next
  case False
  obtain c r where sn: "show_nat (nat i) = c # r"
    using show_nat_nonempty [of "nat i"] by (cases "show_nat (nat i)") auto
  with show_nat_digits [of "nat i"] have "c \<noteq> 45" by (auto simp: is_digit_def)
  with False sn nat_of_digits_show_nat [of "nat i"] show ?thesis
    by (simp add: show_int_def int_of_str_def)
qed

lemma match_number_show_int:
  "number_end rest \<Longrightarrow> match_number fc (show_int i @ rest) = Some (JInt i, rest)"
  using match_number_append [OF match_integer_show_int, of "[]" "[]" "[]" rest fc]
  by (simp add: match_frac_def match_exp_def int_of_str_show_int)

section \<open>Strings: escapes read back\<close>

lemma hexval_hexdigit: "d < 16 \<Longrightarrow> hexval (hexdigit d) = Some d"
  by (simp add: hexval_def hexdigit_def)

lemma nibbles_sum:
  "a = 16 * b + r0 \<Longrightarrow> b = 16 * c + r1 \<Longrightarrow> c = 16 * d + r2 \<Longrightarrow>
   ((d * 16 + r2) * 16 + r1) * 16 + r0 = (a::nat)"
  by simp

lemma hex4_value:
  assumes "n < 65536"
  shows "((n div 4096 mod 16 * 16 + n div 256 mod 16) * 16 + n div 16 mod 16) * 16 + n mod 16
         = (n::nat)"
proof -
  have d2: "n div 256 = n div 16 div 16" and d3: "n div 4096 = n div 16 div 16 div 16"
    by (simp_all add: div_mult2_eq [symmetric])
  from assms have "n div 4096 < 16" by simp
  then have m: "n div 4096 mod 16 = n div 4096" by simp
  have "((n div 4096 * 16 + n div 256 mod 16) * 16 + n div 16 mod 16) * 16 + n mod 16 = n"
  proof (rule nibbles_sum)
    show "n = 16 * (n div 16) + n mod 16" by simp
    show "n div 16 = 16 * (n div 256) + n div 16 mod 16" unfolding d2 by simp
    show "n div 256 = 16 * (n div 4096) + n div 256 mod 16" unfolding d2 d3 by simp
  qed
  with m show ?thesis by simp
qed

lemma decode_hex4:
  assumes "n < 65536"
  shows "decode_uXXXX (hex4 n @ t) = Some n"
proof -
  have "decode_uXXXX (hex4 n @ t) =
    Some (((n div 4096 mod 16 * 16 + n div 256 mod 16) * 16 + n div 16 mod 16) * 16 + n mod 16)"
    unfolding decode_uXXXX_def hex4_def
    by (simp add: hexval_hexdigit del: mod_less div_less)
  also have "\<dots> = Some n"
    by (simp only: hex4_value [OF assms])
  finally show ?thesis .
qed

lemma hexval_bound: "hexval c = Some x \<Longrightarrow> x < 16"
  by (auto simp: hexval_def split: if_splits)

lemma decode_uXXXX_bound:
  assumes "decode_uXXXX s = Some u"
  shows "u < 65536"
proof -
  from assms obtain a b c d x y z w where
    "hexval a = Some x" "hexval b = Some y" "hexval c = Some z" "hexval d = Some w"
    and u: "u = ((x * 16 + y) * 16 + z) * 16 + w"
    by (auto simp: decode_uXXXX_def split: list.splits Option.bind_splits)
  then have "x < 16" "y < 16" "z < 16" "w < 16" by (auto dest: hexval_bound)
  with u show ?thesis by simp
qed

lemma length_hex4: "length (hex4 n) = 4"
  by (simp add: hex4_def)

text \<open>
  The text after the escape of a lone high surrogate must not be the escape of a low
  surrogate, or the decoder would join the two.
\<close>

definition no_low_escape :: "pystr \<Rightarrow> bool" where
  "no_low_escape t =
    (starts_with [92, 117] t \<longrightarrow> (\<exists>u. decode_uXXXX (drop 2 t) = Some u \<and> \<not> is_low_surrogate u))"

lemma scan_unicode_escape_single:
  assumes "n < 65536" and "is_high_surrogate n \<Longrightarrow> no_low_escape tail"
  shows "scan_unicode_escape (hex4 n @ tail) = Some (n, tail)"
proof -
  have d: "decode_uXXXX (hex4 n @ tail) = Some n" by (rule decode_hex4 [OF assms(1)])
  have dr: "drop 4 (hex4 n @ tail) = tail" "drop 6 (hex4 n @ tail) = drop 2 tail"
    by (simp_all add: length_hex4)
  show ?thesis
  proof (cases "is_high_surrogate n \<and> starts_with [92, 117] tail")
    case True
    with assms(2) obtain u where "decode_uXXXX (drop 2 tail) = Some u" "\<not> is_low_surrogate u"
      by (auto simp: no_low_escape_def)
    with True d dr show ?thesis by (simp add: scan_unicode_escape_def)
  next
    case False
    with d dr show ?thesis by (auto simp: scan_unicode_escape_def)
  qed
qed

lemma scan_unicode_escape_pair:
  assumes "65536 \<le> c" and "c \<le> 1114111"
  shows "scan_unicode_escape
           (hex4 (55296 + (c - 65536) div 1024 mod 1024)
            @ 92 # 117 # hex4 (56320 + (c - 65536) mod 1024) @ tail) = Some (c, tail)"
proof -
  define n where "n = c - 65536"
  define hi where "hi = 55296 + n div 1024 mod 1024"
  define lo where "lo = 56320 + n mod 1024"
  from assms have n: "n < 1048576" and c: "c = 65536 + n" by (simp_all add: n_def)
  from n have q: "n div 1024 < 1024" by simp
  then have hi: "hi = 55296 + n div 1024" by (simp add: hi_def)
  have lo_b: "n mod 1024 < 1024" by simp
  from hi q have hi_r: "hi < 65536" "is_high_surrogate hi"
    by (simp_all add: is_high_surrogate_def)
  from lo_b have lo_r: "lo < 65536" "is_low_surrogate lo"
    by (simp_all add: lo_def is_low_surrogate_def)
  let ?s = "hex4 hi @ 92 # 117 # hex4 lo @ tail"
  have d1: "decode_uXXXX ?s = Some hi" by (rule decode_hex4 [OF hi_r(1)])
  obtain a1 a2 a3 a4 where h1: "hex4 hi = [a1, a2, a3, a4]" by (simp add: hex4_def)
  obtain b1 b2 b3 b4 where h2: "hex4 lo = [b1, b2, b3, b4]" by (simp add: hex4_def)
  have dr4: "drop 4 ?s = 92 # 117 # hex4 lo @ tail" by (simp add: h1)
  have dr6: "drop 6 ?s = hex4 lo @ tail" by (simp add: h1)
  have dr10: "drop 10 ?s = tail" by (simp add: h1 h2)
  have d2: "decode_uXXXX (drop 6 ?s) = Some lo"
    unfolding dr6 by (rule decode_hex4 [OF lo_r(1)])
  have v: "65536 + (hi - 55296) * 1024 + (lo - 56320) = c"
    by (simp add: hi lo_def c)
  have "scan_unicode_escape ?s = Some (c, tail)"
    unfolding scan_unicode_escape_def
    by (simp only: d1 d2 dr4 dr10 hi_r lo_r v starts_with.simps option.simps
        list.simps simp_thms if_True)
  then show ?thesis by (simp only: hi_def lo_def n_def)
qed

lemma scan_char_escape:
  assumes "c \<le> 1114111" and "is_high_surrogate c \<Longrightarrow> no_low_escape tail"
  shows "scan_char (escape_char c @ tail) = Some (c, tail)"
proof -
  consider (plain) "c = 92 \<or> c = 34 \<or> (32 \<le> c \<and> c \<le> 126) \<or> c = 8 \<or> c = 12 \<or> c = 10 \<or> c = 13 \<or> c = 9"
    | (single) "\<not> (c = 92 \<or> c = 34 \<or> (32 \<le> c \<and> c \<le> 126) \<or> c = 8 \<or> c = 12 \<or> c = 10 \<or> c = 13 \<or> c = 9)"
        "c < 65536"
    | (pair) "65536 \<le> c"
    by linarith
  then show ?thesis
  proof cases
    case plain
    then show ?thesis
      by (auto simp: escape_char_def scan_char_def backslash_def)
  next
    case single
    then have "escape_char c = 92 # 117 # hex4 c" by (simp add: escape_char_def)
    with scan_unicode_escape_single [OF single(2) assms(2)] show ?thesis
      by (simp add: scan_char_def)
  next
    case pair
    then have "escape_char c = 92 # 117 # hex4 (55296 + (c - 65536) div 1024 mod 1024)
        @ 92 # 117 # hex4 (56320 + (c - 65536) mod 1024)"
      by (simp add: escape_char_def)
    with scan_unicode_escape_pair [OF pair assms(1), of tail] show ?thesis
      by (simp add: scan_char_def)
  qed
qed

lemma escape_char_hd: "\<exists>x r. escape_char c = x # r \<and> x \<noteq> 34 \<and> 32 \<le> x \<and> x < 127"
  by (simp add: escape_char_def)

lemma no_low_escape_quote: "no_low_escape (34 # t)"
  by (simp add: no_low_escape_def)

lemma no_low_escape_next:
  assumes "\<not> is_low_surrogate d" and "d \<le> 1114111"
  shows "no_low_escape (escape_char d @ t)"
proof -
  consider (plain) "d = 92 \<or> d = 34 \<or> (32 \<le> d \<and> d \<le> 126) \<or> d = 8 \<or> d = 12 \<or> d = 10 \<or> d = 13 \<or> d = 9"
    | (single) "\<not> (d = 92 \<or> d = 34 \<or> (32 \<le> d \<and> d \<le> 126) \<or> d = 8 \<or> d = 12 \<or> d = 10 \<or> d = 13 \<or> d = 9)"
        "d < 65536"
    | (pair) "65536 \<le> d"
    by linarith
  then show ?thesis
  proof cases
    case plain
    then show ?thesis
      by (auto simp: escape_char_def no_low_escape_def)
  next
    case single
    then have "escape_char d = 92 # 117 # hex4 d" by (simp add: escape_char_def)
    with decode_hex4 [OF single(2), of t] assms(1) show ?thesis
      by (simp add: no_low_escape_def)
  next
    case pair
    define hi where "hi = 55296 + (d - 65536) div 1024 mod 1024"
    have "(d - 65536) div 1024 mod 1024 < 1024" by simp
    then have hi_r: "hi < 65536" "\<not> is_low_surrogate hi"
      by (simp_all add: hi_def is_low_surrogate_def)
    from pair have "escape_char d = 92 # 117 # hex4 hi
        @ 92 # 117 # hex4 (56320 + (d - 65536) mod 1024)"
      by (simp add: escape_char_def hi_def)
    with decode_hex4 [OF hi_r(1)] hi_r(2) show ?thesis
      by (simp add: no_low_escape_def)
  qed
qed

lemma scanstring_quote: "scanstring (34 # rest) = Some ([], rest)"
  by (simp add: scanstring.simps)

lemma scanstring_step:
  assumes "c \<le> 1114111" and "is_high_surrogate c \<Longrightarrow> no_low_escape tail"
    and "scanstring tail = Some (s, rest)"
  shows "scanstring (escape_char c @ tail) = Some (c # s, rest)"
proof -
  from escape_char_hd [of c] obtain x r where e: "escape_char c = x # r" and x: "x \<noteq> 34"
    by blast
  have "scanstring ((x # r) @ tail) = Some (c # s, rest)"
    using scan_char_escape [OF assms(1,2)] assms(3) x
    by (subst scanstring.simps) (simp add: e)
  then show ?thesis by (simp add: e)
qed

lemma scanstring_escape:
  "wf_str s \<Longrightarrow> scanstring (concat (map escape_char s) @ 34 # rest) = Some (s, rest)"
proof (induction s rule: wf_str.induct)
  case 1
  show ?case by (simp add: scanstring_quote)
next
  case (2 c)
  then show ?case
    using scanstring_step [of c "34 # rest" "[]" rest]
    by (simp add: scanstring_quote no_low_escape_quote)
next
  case (3 c d r)
  then have c: "c \<le> 1114111" and nl: "is_high_surrogate c \<Longrightarrow> \<not> is_low_surrogate d"
    and wf: "wf_str (d # r)" by auto
  from wf have d: "d \<le> 1114111" by (cases r) auto
  let ?tail = "concat (map escape_char (d # r)) @ 34 # rest"
  have "is_high_surrogate c \<Longrightarrow> no_low_escape ?tail"
    using no_low_escape_next [OF nl d] by simp
  from scanstring_step [OF c this "3.IH" [OF wf]] show ?case by simp
qed

lemma scanstring_encoded:
  "wf_str s \<Longrightarrow> scanstring (tl (encode_basestring_ascii s) @ rest) = Some (s, rest)"
  using scanstring_escape [of s rest] by (simp add: encode_basestring_ascii_def)

section \<open>Values: the encoder's text reads back\<close>

definition value_start :: "nat \<Rightarrow> bool" where
  "value_start c = (\<not> is_ws c \<and> c \<noteq> 93 \<and> c < 128)"

definition value_end :: "pystr \<Rightarrow> bool" where
  "value_end rest = (case rest of [] \<Rightarrow> True | c # _ \<Rightarrow> c = 44 \<or> c = 10)"

lemma value_end_number_end: "value_end rest \<Longrightarrow> number_end rest"
  by (auto simp: value_end_def number_end_def is_digit_def split: list.splits)

lemma value_end_simps:
  "value_end []" "value_end (44 # r)" "value_end (10 # r)" "value_end (newline_indent l @ r)"
  by (simp_all add: value_end_def newline_indent_def)

lemma skip_ws_start: "\<not> is_ws c \<Longrightarrow> skip_ws (c # r) = c # r"
  by (simp add: skip_ws_def)

lemma skip_ws_newline_indent: "skip_ws (newline_indent l @ r) = skip_ws r"
proof -
  have "dropWhile is_ws (replicate n 32 @ r) = dropWhile is_ws r" for n
    by (induction n) (simp_all add: is_ws_def)
  then show ?thesis by (simp add: skip_ws_def newline_indent_def is_ws_def)
qed

lemma skip_ws_space: "skip_ws (32 # r) = skip_ws r"
  by (simp add: skip_ws_def is_ws_def)

lemma scan_once_string:
  "scan_once fc (34 # r) =
    (case scanstring r of None \<Rightarrow> None | Some (str, r1) \<Rightarrow> Some (JStr str, r1))"
  by (subst scan_once.simps) simp

lemma scan_once_array_empty: "scan_once fc (91 # 93 # r) = Some (JArr [], r)"
  by (subst scan_once.simps) (simp add: skip_ws_def is_ws_def)

lemma scan_once_object_empty: "scan_once fc (123 # 125 # r) = Some (JObj [], r)"
  by (subst scan_once.simps) (simp add: skip_ws_def is_ws_def)

lemma scan_once_array:
  assumes "skip_ws r = c1 # r1" and "c1 \<noteq> 93"
    and "scan_array_items fc (c1 # r1) = Some (vs, r2)"
  shows "scan_once fc (91 # r) = Some (JArr vs, r2)"
  using assms by (subst scan_once.simps) simp

lemma scan_once_object:
  assumes "skip_ws r = 34 # r1" and "scan_object_items fc r1 = Some (pairs, r2)"
  shows "scan_once fc (123 # r) = Some (JObj (dict_of_pairs pairs), r2)"
  using assms by (subst scan_once.simps) simp

lemma scan_once_null: "scan_once fc (pystr ''null'' @ r) = Some (JNull, r)"
  by (subst scan_once.simps) (simp add: pystr_def)

lemma scan_once_true: "scan_once fc (pystr ''true'' @ r) = Some (JBool True, r)"
  by (subst scan_once.simps) (simp add: pystr_def)

lemma scan_once_false: "scan_once fc (pystr ''false'' @ r) = Some (JBool False, r)"
  by (subst scan_once.simps) (simp add: pystr_def)

lemma scan_once_number:
  assumes "match_number fc (c # r) = Some x" and "c = 45 \<or> is_digit c"
  shows "scan_once fc (c # r) = Some x"
  using assms by (subst scan_once.simps) (auto simp: is_digit_def)

lemma match_number_letter: "\<not> is_digit c \<Longrightarrow> c \<noteq> 45 \<Longrightarrow> match_number fc (c # r) = None"
  by (auto simp: match_number_def match_integer_def Let_def is_digit_def)

lemma match_number_minus_letter: "\<not> is_digit c \<Longrightarrow> match_number fc (45 # c # r) = None"
  by (auto simp: match_number_def match_integer_def Let_def is_digit_def)

lemma scan_once_NaN: "scan_once fc (pystr ''NaN'' @ r) = Some (JFloat NaN, r)"
  by (subst scan_once.simps) (simp add: pystr_def match_number_letter is_digit_def)

lemma scan_once_Infinity: "scan_once fc (pystr ''Infinity'' @ r) = Some (JFloat PosInf, r)"
  by (subst scan_once.simps) (simp add: pystr_def match_number_letter is_digit_def)

lemma scan_once_NegInfinity: "scan_once fc (pystr ''-Infinity'' @ r) = Some (JFloat NegInf, r)"
  by (subst scan_once.simps) (simp add: pystr_def match_number_minus_letter is_digit_def)

lemma show_int_hd: "\<exists>c r. show_int i = c # r \<and> (c = 45 \<or> is_digit c)"
proof -
  obtain c r where "show_nat (nat \<bar>i\<bar>) = c # r"
    using show_nat_nonempty [of "nat \<bar>i\<bar>"] by (cases "show_nat (nat \<bar>i\<bar>)") auto
  with show_nat_digits [of "nat \<bar>i\<bar>"] show ?thesis
    by (cases "i < 0") (auto simp: show_int_def)
qed

lemma scan_once_int:
  assumes "value_end rest"
  shows "scan_once fc (show_int i @ rest) = Some (JInt i, rest)"
proof -
  from show_int_hd [of i] obtain c r where s: "show_int i = c # r" and c: "c = 45 \<or> is_digit c"
    by blast
  from match_number_show_int [OF value_end_number_end [OF assms], of fc i]
  have "match_number fc (c # r @ rest) = Some (JInt i, rest)" by (simp add: s)
  from scan_once_number [OF this c] show ?thesis by (simp add: s)
qed

lemma scan_once_float:
  assumes "float_ok fc x" and "value_end rest"
  shows "scan_once fc (pystr (float_repr fc x) @ rest) = Some (JFloat (Finite x), rest)"
proof -
  let ?t = "pystr (float_repr fc x)"
  from assms(1) obtain ip s1 fr s2 ex where
    m: "match_integer ?t = Some (ip, s1)" "match_frac s1 = (fr, s2)" "match_exp s2 = (ex, [])"
    and fl: "fr \<noteq> [] \<or> ex \<noteq> []" and rt: "float_of_str fc (float_repr fc x) = Finite x"
    by (auto simp: float_ok_def float_token_def split: option.splits prod.splits)
  have "map char_of ?t = float_repr fc x" by (simp add: pystr_def)
  with match_number_append [OF m value_end_number_end [OF assms(2)], of fc] fl rt
  have mn: "match_number fc (?t @ rest) = Some (JFloat (Finite x), rest)" by simp
  from match_integer_hd [OF m(1)] obtain c r where t: "?t = c # r" and c: "c = 45 \<or> is_digit c"
    by blast
  from mn have "match_number fc (c # r @ rest) = Some (JFloat (Finite x), rest)"
    by (simp add: t)
  from scan_once_number [OF this c] show ?thesis by (simp add: t)
qed

lemma float_repr_hd:
  assumes "float_ok fc x"
  shows "\<exists>c r. pystr (float_repr fc x) = c # r \<and> (c = 45 \<or> is_digit c)"
  using assms match_integer_hd
  by (fastforce simp: float_ok_def float_token_def split: option.splits)

lemma iterencode_hd:
  assumes "wf_json fc v"
  shows "\<exists>c r. iterencode fc lvl v = c # r \<and> value_start c"
proof (cases v)
  case JNull
  then show ?thesis by (simp add: pystr_def value_start_def is_ws_def)
next
  case (JBool b)
  then show ?thesis by (simp add: pystr_def value_start_def is_ws_def)
next
  case (JInt i)
  with show_int_hd [of i] show ?thesis
    by (auto simp: value_start_def is_ws_def is_digit_def)
next
  case (JFloat x)
  show ?thesis
  proof (cases x)
    case (Finite y)
    with JFloat assms float_repr_hd [of fc y] show ?thesis
      by (auto simp: floatstr_def value_start_def is_ws_def is_digit_def)
  qed (use JFloat in \<open>simp_all add: floatstr_def pystr_def value_start_def is_ws_def\<close>)
next
  case (JStr s)
  then show ?thesis
    by (simp add: encode_basestring_ascii_def value_start_def is_ws_def)
next
  case (JArr xs)
  then show ?thesis by (simp add: pystr_def value_start_def is_ws_def)
next
  case (JObj kvs)
  then show ?thesis by (simp add: pystr_def value_start_def is_ws_def)
qed

lemma iterencode_list_hd:
  assumes "xs \<noteq> []" and "\<forall>x \<in> set xs. wf_json fc x"
  shows "\<exists>c r. iterencode_list fc lvl xs = c # r \<and> value_start c"
proof -
  from assms obtain x ys where xs: "xs = x # ys" and "wf_json fc x" by (cases xs) auto
  from iterencode_hd [OF this(2), of lvl] xs show ?thesis by auto
qed

lemma iterencode_dict_hd:
  assumes "kvs \<noteq> []"
  shows "\<exists>r. iterencode_dict fc lvl kvs = 34 # r"
  using assms by (cases kvs) (simp_all add: encode_basestring_ascii_def)

lemma scan_array_items_last:
  assumes "scan_once fc s = Some (v, r)" and "length r < length s" and "skip_ws r = 93 # r1"
  shows "scan_array_items fc s = Some ([v], r1)"
  using assms by (subst scan_array_items.simps) simp

lemma scan_array_items_more:
  assumes "scan_once fc s = Some (v, r)" and "length r < length s" and "skip_ws r = 44 # r1"
    and "scan_array_items fc (skip_ws r1) = Some (vs, r2)"
  shows "scan_array_items fc s = Some (v # vs, r2)"
  using assms by (subst scan_array_items.simps) simp

lemma scan_object_items_last:
  assumes "scanstring s = Some (k, r)" and "skip_ws r = 58 # r1"
    and "scan_once fc (skip_ws r1) = Some (v, r2)" and "length r2 < length s"
    and "skip_ws r2 = 125 # r3"
  shows "scan_object_items fc s = Some ([(k, v)], r3)"
  using assms by (subst scan_object_items.simps) simp

lemma scan_object_items_more:
  assumes "scanstring s = Some (k, r)" and "skip_ws r = 58 # r1"
    and "scan_once fc (skip_ws r1) = Some (v, r2)" and "length r2 < length s"
    and "skip_ws r2 = 44 # r3" and "skip_ws r3 = 34 # r4"
    and "scan_object_items fc r4 = Some (pairs, r5)"
  shows "scan_object_items fc s = Some ((k, v) # pairs, r5)"
  using assms by (subst scan_object_items.simps) simp

lemma scan_iterencode:
  "wf_json fc v \<Longrightarrow> value_end rest \<Longrightarrow>
     scan_once fc (iterencode fc lvl v @ rest) = Some (v, rest)"
  "xs \<noteq> [] \<Longrightarrow> \<forall>x \<in> set xs. wf_json fc x \<Longrightarrow>
     scan_array_items fc (iterencode_list fc lvl xs @ newline_indent l @ 93 # rest)
       = Some (xs, rest)"
  "kvs \<noteq> [] \<Longrightarrow> \<forall>kv \<in> set kvs. wf_str (fst kv) \<and> wf_json fc (snd kv) \<Longrightarrow>
     scan_object_items fc (tl (iterencode_dict fc lvl kvs) @ newline_indent l @ 125 # rest)
       = Some (kvs, rest)"
proof (induction fc lvl v and fc lvl xs and fc lvl kvs
    arbitrary: rest and l rest and l rest
    rule: iterencode_iterencode_list_iterencode_dict.induct)
  case (1 fc lvl)
  show ?case by (simp add: scan_once_null)
next
  case (2 fc lvl b)
  show ?case by (simp add: scan_once_true scan_once_false)
next
  case (3 fc lvl i)
  then show ?case by (simp add: scan_once_int)
next
  case (4 fc lvl x)
  then show ?case
    by (cases x)
      (simp_all add: floatstr_def scan_once_NaN scan_once_Infinity scan_once_NegInfinity
        scan_once_float)
next
  case (5 fc lvl s)
  then have "scanstring (tl (encode_basestring_ascii s) @ rest) = Some (s, rest)"
    by (simp add: scanstring_encoded)
  then show ?case
    by (simp add: encode_basestring_ascii_def scan_once_string)
next
  case (6 fc lvl xs)
  show ?case
  proof (cases "xs = []")
    case True
    then show ?thesis by (simp add: pystr_def scan_once_array_empty)
  next
    case False
    from "6.prems" have wf: "\<forall>x \<in> set xs. wf_json fc x" by simp
    from iterencode_list_hd [OF False wf, of "Suc lvl"] obtain c r where
      hd: "iterencode_list fc (Suc lvl) xs = c # r" and c: "value_start c" by blast
    let ?Y = "c # r @ newline_indent lvl @ 93 # rest"
    have sk: "skip_ws (newline_indent (Suc lvl) @ ?Y) = c # (r @ newline_indent lvl @ 93 # rest)"
      using c by (simp add: skip_ws_newline_indent skip_ws_start value_start_def)
    from c have c93: "c \<noteq> 93" by (simp add: value_start_def)
    have "scan_array_items fc (c # (r @ newline_indent lvl @ 93 # rest)) = Some (xs, rest)"
      using "6.IH" [OF False False wf, of lvl rest] by (simp add: hd)
    from scan_once_array [OF sk c93 this] show ?thesis
      using False by (simp add: hd)
  qed
next
  case (7 fc lvl kvs)
  show ?case
  proof (cases "kvs = []")
    case True
    then show ?thesis by (simp add: pystr_def scan_once_object_empty)
  next
    case False
    from "7.prems" have wf: "\<forall>kv \<in> set kvs. wf_str (fst kv) \<and> wf_json fc (snd kv)"
      and di: "distinct (map fst kvs)" by simp_all
    from iterencode_dict_hd [OF False, of fc "Suc lvl"] obtain r where
      hd: "iterencode_dict fc (Suc lvl) kvs = 34 # r" by blast
    have sk: "skip_ws (newline_indent (Suc lvl) @ 34 # r @ newline_indent lvl @ 125 # rest)
        = 34 # (r @ newline_indent lvl @ 125 # rest)"
      by (simp add: skip_ws_newline_indent skip_ws_start is_ws_def)
    have "scan_object_items fc (r @ newline_indent lvl @ 125 # rest) = Some (kvs, rest)"
      using "7.IH" [OF False False wf, of lvl rest] by (simp add: hd)
    from scan_once_object [OF sk this] show ?thesis
      using False by (simp add: hd dict_of_pairs_distinct [OF di])
  qed
next
  case (8 fc lvl)
  then show ?case by simp
next
  case (9 fc lvl x xs)
  from "9.prems" have wfx: "wf_json fc x" and wfxs: "\<forall>y \<in> set xs. wf_json fc y" by simp_all
  from iterencode_hd [OF wfx, of lvl] obtain c r where hd: "iterencode fc lvl x = c # r"
    by blast
  show ?case
  proof (cases "xs = []")
    case True
    let ?Z = "newline_indent l @ 93 # rest"
    have s1: "scan_once fc (iterencode fc lvl x @ ?Z) = Some (x, ?Z)"
      by (rule "9.IH"(1) [OF wfx value_end_simps(4)])
    have len: "length ?Z < length (iterencode fc lvl x @ ?Z)" by (simp add: hd)
    have sk: "skip_ws ?Z = 93 # rest"
      by (simp add: skip_ws_newline_indent skip_ws_start is_ws_def)
    from scan_array_items_last [OF s1 len sk] show ?thesis by (simp add: True)
  next
    case False
    let ?Y = "iterencode_list fc lvl xs @ newline_indent l @ 93 # rest"
    let ?Z = "44 # newline_indent lvl @ ?Y"
    have s1: "scan_once fc (iterencode fc lvl x @ ?Z) = Some (x, ?Z)"
      by (rule "9.IH"(1) [OF wfx value_end_simps(2)])
    have len: "length ?Z < length (iterencode fc lvl x @ ?Z)" by (simp add: hd)
    have sk: "skip_ws ?Z = 44 # (newline_indent lvl @ ?Y)"
      by (simp add: skip_ws_start is_ws_def)
    from iterencode_list_hd [OF False wfxs, of lvl] obtain c' r' where
      hd': "iterencode_list fc lvl xs = c' # r'" and c': "value_start c'" by blast
    have sk2: "skip_ws (newline_indent lvl @ ?Y) = ?Y"
      using c' by (simp add: hd' skip_ws_newline_indent skip_ws_start value_start_def)
    have "scan_array_items fc ?Y = Some (xs, rest)"
      by (rule "9.IH"(2) [OF False False wfxs])
    with sk2 have "scan_array_items fc (skip_ws (newline_indent lvl @ ?Y)) = Some (xs, rest)"
      by simp
    from scan_array_items_more [OF s1 len sk this] show ?thesis by (simp add: False)
  qed
next
  case (10 fc lvl)
  then show ?case by simp
next
  case (11 fc lvl kv kvs)
  obtain k v where kv: "kv = (k, v)" by (cases kv)
  from "11.prems" kv have wfk: "wf_str k" and wfv: "wf_json fc v"
    and wfkvs: "\<forall>p \<in> set kvs. wf_str (fst p) \<and> wf_json fc (snd p)" by simp_all
  from iterencode_hd [OF wfv, of lvl] obtain c r where hd: "iterencode fc lvl v = c # r"
    and c: "value_start c" by blast
  define Z where "Z = (if kvs = [] then [] else 44 # newline_indent lvl @ iterencode_dict fc lvl kvs)
      @ newline_indent l @ 125 # rest"
  have ve: "value_end Z"
    by (simp add: Z_def value_end_simps)
  let ?s = "tl (encode_basestring_ascii k) @ 58 # 32 # iterencode fc lvl v @ Z"
  have whole: "tl (iterencode_dict fc lvl (kv # kvs)) @ newline_indent l @ 125 # rest = ?s"
    by (simp add: kv Z_def encode_basestring_ascii_def)
  have st: "scanstring ?s = Some (k, 58 # 32 # iterencode fc lvl v @ Z)"
    by (rule scanstring_encoded [OF wfk])
  have sk: "skip_ws (58 # 32 # iterencode fc lvl v @ Z) = 58 # (32 # iterencode fc lvl v @ Z)"
    by (simp add: skip_ws_start is_ws_def)
  have sk1: "skip_ws (32 # iterencode fc lvl v @ Z) = iterencode fc lvl v @ Z"
    using c by (simp add: hd skip_ws_space skip_ws_start value_start_def)
  have s1: "scan_once fc (skip_ws (32 # iterencode fc lvl v @ Z)) = Some (v, Z)"
    unfolding sk1 using "11.IH"(1) [OF _ ve] wfv by (simp add: kv)
  have len: "length Z < length ?s" by simp
  show ?case
  proof (cases "kvs = []")
    case True
    then have sk2: "skip_ws Z = 125 # rest"
      by (simp add: Z_def skip_ws_newline_indent skip_ws_start is_ws_def)
    from scan_object_items_last [OF st sk s1 len sk2] show ?thesis
      unfolding whole by (simp add: True kv)
  next
    case False
    from iterencode_dict_hd [OF False, of fc lvl] obtain r' where
      hd': "iterencode_dict fc lvl kvs = 34 # r'" by blast
    from False have sk2: "skip_ws Z
        = 44 # (newline_indent lvl @ iterencode_dict fc lvl kvs @ newline_indent l @ 125 # rest)"
      by (simp add: Z_def skip_ws_start is_ws_def)
    have sk3: "skip_ws (newline_indent lvl @ iterencode_dict fc lvl kvs
          @ newline_indent l @ 125 # rest)
        = 34 # (r' @ newline_indent l @ 125 # rest)"
      by (simp add: hd' skip_ws_newline_indent skip_ws_start is_ws_def)
    have "scan_object_items fc (r' @ newline_indent l @ 125 # rest) = Some (kvs, rest)"
      using "11.IH"(2) [OF False False wfkvs, of l rest] by (simp add: hd')
    from scan_object_items_more [OF st sk s1 len sk2 sk3 this] show ?thesis
      unfolding whole by (simp add: kv)
  qed
qed

section \<open>The encoder's text is ASCII and reads back\<close>

lemma match_integer_ascii: "match_integer t = Some (ip, s1) \<Longrightarrow> \<forall>c \<in> set ip. c < 128"
  by (cases t; cases "tl t")
    (auto simp: match_integer_def Let_def is_digit_def split: if_splits list.splits
      dest!: set_takeWhileD)

lemma match_frac_ascii: "match_frac s = (fr, s2) \<Longrightarrow> \<forall>c \<in> set fr. c < 128"
  by (auto simp: match_frac_def is_digit_def split: if_splits list.splits dest!: set_takeWhileD)

lemma match_exp_ascii: "match_exp s = (ex, s3) \<Longrightarrow> \<forall>c \<in> set ex. c < 128"
  by (auto simp: match_exp_def Let_def is_digit_def split: if_splits list.splits
      dest!: set_takeWhileD)

lemma float_token_ascii:
  assumes "float_token t"
  shows "\<forall>c \<in> set t. c < 128"
proof -
  from assms obtain ip s1 fr s2 ex where
    m: "match_integer t = Some (ip, s1)" "match_frac s1 = (fr, s2)" "match_exp s2 = (ex, [])"
    by (auto simp: float_token_def split: option.splits prod.splits)
  then have "t = ip @ fr @ ex"
    by (auto dest!: match_integer_text match_frac_text match_exp_text)
  with match_integer_ascii [OF m(1)] match_frac_ascii [OF m(2)] match_exp_ascii [OF m(3)]
  show ?thesis by auto
qed

lemma hexdigit_ascii: "d < 16 \<Longrightarrow> hexdigit d < 128"
  by (simp add: hexdigit_def)

lemma hex4_ascii: "\<forall>x \<in> set (hex4 n). x < 128"
  by (simp add: hex4_def hexdigit_ascii)

lemma escape_char_ascii: "\<forall>x \<in> set (escape_char c). x < 128"
  using hex4_ascii by (auto simp: escape_char_def)

lemma encode_basestring_ascii_ascii: "\<forall>x \<in> set (encode_basestring_ascii s). x < 128"
  using escape_char_ascii by (auto simp: encode_basestring_ascii_def)

lemma show_int_ascii: "\<forall>x \<in> set (show_int i). x < 128"
proof -
  have "\<forall>x \<in> set (show_nat n). x < 128" for n
    using show_nat_digits [of n] by (auto simp: is_digit_def)
  then show ?thesis by (auto simp: show_int_def)
qed

lemma floatstr_ascii:
  assumes "wf_json fc (JFloat x)"
  shows "\<forall>c \<in> set (floatstr fc x). c < 128"
proof (cases x)
  case (Finite y)
  with assms float_token_ascii [of "pystr (float_repr fc y)"] show ?thesis
    by (simp add: floatstr_def float_ok_def)
qed (simp_all add: floatstr_def pystr_def)

lemma newline_indent_ascii: "\<forall>c \<in> set (newline_indent l). c < 128"
  by (auto simp: newline_indent_def)

lemma iterencode_ascii:
  "wf_json fc v \<Longrightarrow> \<forall>c \<in> set (iterencode fc lvl v). c < 128"
  "\<forall>x \<in> set xs. wf_json fc x \<Longrightarrow> \<forall>c \<in> set (iterencode_list fc lvl xs). c < 128"
  "\<forall>kv \<in> set kvs. wf_json fc (snd kv) \<Longrightarrow> \<forall>c \<in> set (iterencode_dict fc lvl kvs). c < 128"
proof (induction fc lvl v and fc lvl xs and fc lvl kvs
    rule: iterencode_iterencode_list_iterencode_dict.induct)
  case (1 fc lvl)
  show ?case by (simp add: pystr_def)
next
  case (2 fc lvl b)
  show ?case by (simp add: pystr_def)
next
  case (3 fc lvl i)
  show ?case using show_int_ascii by simp
next
  case (4 fc lvl x)
  then show ?case using floatstr_ascii by simp
next
  case (5 fc lvl s)
  show ?case using encode_basestring_ascii_ascii by simp
next
  case (6 fc lvl xs)
  then show ?case using newline_indent_ascii by (auto simp: pystr_def)
next
  case (7 fc lvl kvs)
  then show ?case using newline_indent_ascii by (auto simp: pystr_def)
next
  case (8 fc lvl)
  show ?case by simp
next
  case (9 fc lvl x xs)
  then show ?case using newline_indent_ascii by auto
next
  case (10 fc lvl)
  show ?case by simp
next
  case (11 fc lvl kv kvs)
  then show ?case using newline_indent_ascii encode_basestring_ascii_ascii by auto
qed

lemma loads_dumps:
  assumes "wf_json fc v"
  shows "loads fc (dumps fc v) = Some v"
proof -
  from iterencode_hd [OF assms, of 0] obtain c r where hd: "iterencode fc 0 v = c # r"
    and c: "value_start c" by blast
  from c have "c \<noteq> 65279" and ws: "\<not> is_ws c" by (simp_all add: value_start_def)
  then have bom: "\<not> starts_with [65279] (dumps fc v)" by (simp add: dumps_def hd)
  from ws have sk: "skip_ws (dumps fc v) = dumps fc v"
    by (simp add: dumps_def hd skip_ws_start)
  from scan_iterencode(1) [OF assms value_end_simps(1), of 0]
  have "scan_once fc (dumps fc v) = Some (v, [])" by (simp add: dumps_def)
  with bom sk show ?thesis by (simp add: loads_def skip_ws_def)
qed

lemma wf_json_ascii:
  assumes "wf_json fc v"
  shows "\<forall>c \<in> set (dumps fc v). c < 128"
  using iterencode_ascii(1) [OF assms] by (simp add: dumps_def)

section \<open>The decoder returns well-formed values\<close>

lemma valid_text_subset: "valid_text s \<Longrightarrow> set r \<subseteq> set s \<Longrightarrow> valid_text r"
  by (auto simp: valid_text_def)

lemma set_skip_ws: "set (skip_ws s) \<subseteq> set s"
  by (auto simp: skip_ws_def dest: set_dropWhileD)

lemma scan_unicode_escape_result:
  assumes "scan_unicode_escape s = Some (ch, r)"
  shows "ch \<le> 1114111 \<and> set r \<subseteq> set s"
proof -
  have b: "u \<le> 1114111" if "decode_uXXXX t = Some u" for t u
    using decode_uXXXX_bound [OF that] by simp
  have p: "65536 + (u - 55296) * 1024 + (u2 - 56320) \<le> 1114111"
    if "is_high_surrogate u" "is_low_surrogate u2" for u u2 :: nat
    using that unfolding is_high_surrogate_def is_low_surrogate_def by arith
  from assms show ?thesis
    by (auto simp: scan_unicode_escape_def split: option.splits if_splits
        dest: b p set_drop_subset [THEN subsetD])
qed

lemma backslash_result: "backslash e = Some ch \<Longrightarrow> ch < 128"
  by (auto simp: backslash_def split: if_splits)

lemma scan_char_result:
  assumes "valid_text s" and "scan_char s = Some (ch, r)"
  shows "ch \<le> 1114111 \<and> set r \<subseteq> set s"
  using assms
  by (auto simp: scan_char_def valid_text_def split: list.splits if_splits
      dest!: scan_unicode_escape_result backslash_result)

text \<open>
  A lone high surrogate comes from an escape that is not followed by the escape of a
  low surrogate; a low surrogate comes from an escape.
\<close>

lemma scan_unicode_escape_high:
  assumes "scan_unicode_escape s = Some (ch, r)" and "is_high_surrogate ch"
  shows "no_low_escape r"
proof -
  from assms(1) obtain uni where d: "decode_uXXXX s = Some uni"
    by (auto simp: scan_unicode_escape_def split: option.splits)
  show ?thesis
  proof (cases "is_high_surrogate uni \<and> starts_with [92, 117] (drop 4 s)")
    case True
    with assms(1) d obtain uni2 where d2: "decode_uXXXX (drop 6 s) = Some uni2"
      by (auto simp: scan_unicode_escape_def split: option.splits)
    show ?thesis
    proof (cases "is_low_surrogate uni2")
      case True
      with \<open>is_high_surrogate uni \<and> starts_with [92, 117] (drop 4 s)\<close> assms(1) d d2
      have "ch = 65536 + (uni - 55296) * 1024 + (uni2 - 56320)"
        by (simp add: scan_unicode_escape_def)
      with assms(2) show ?thesis by (simp add: is_high_surrogate_def)
    next
      case False
      with \<open>is_high_surrogate uni \<and> starts_with [92, 117] (drop 4 s)\<close> assms(1) d d2
      have "r = drop 4 s" by (simp add: scan_unicode_escape_def)
      with d2 False show ?thesis by (simp add: no_low_escape_def)
    qed
  next
    case False
    with assms(1) d have "r = drop 4 s" and "ch = uni"
      by (auto simp: scan_unicode_escape_def)
    with False assms(2) show ?thesis by (simp add: no_low_escape_def)
  qed
qed

lemma scan_unicode_escape_low:
  assumes "scan_unicode_escape s = Some (ch, r)" and "is_low_surrogate ch"
  shows "decode_uXXXX s = Some ch"
  using assms
  by (auto simp: scan_unicode_escape_def is_low_surrogate_def is_high_surrogate_def
      split: option.splits if_splits)

lemma scan_char_high:
  assumes "valid_text s" and "scan_char s = Some (ch, r)" and "is_high_surrogate ch"
  shows "no_low_escape r"
  using assms
  by (auto simp: scan_char_def valid_text_def is_high_surrogate_def [of ch] backslash_def
      split: list.splits if_splits
      intro: scan_unicode_escape_high [unfolded is_high_surrogate_def [of ch]])

lemma scan_char_low:
  assumes "valid_text s" and "scan_char s = Some (ch, r)" and "is_low_surrogate ch"
  shows "starts_with [92, 117] s \<and> decode_uXXXX (drop 2 s) = Some ch"
  using assms
  by (auto simp: scan_char_def valid_text_def is_low_surrogate_def [of ch] backslash_def
      split: list.splits if_splits
      intro: scan_unicode_escape_low [unfolded is_low_surrogate_def [of ch]])

subsection \<open>Reading a successful scan backwards\<close>

lemma scanstring_cases:
  assumes "scanstring s = Some (str, r)"
  obtains (quote) "s = 34 # r" "str = []"
  | (char) c r0 ch r1 str1 where "s = c # r0" "c \<noteq> 34" "scan_char s = Some (ch, r1)"
      "scanstring r1 = Some (str1, r)" "str = ch # str1"
  using assms
  by (subst (asm) scanstring.simps) (auto split: list.splits if_splits option.splits)

lemma scanstring_wf:
  "valid_text s \<Longrightarrow> scanstring s = Some (str, r) \<Longrightarrow> wf_str str \<and> set r \<subseteq> set s"
proof (induction s arbitrary: str rule: scanstring.induct)
  case (1 s)
  from "1.prems"(2) show ?case
  proof (cases rule: scanstring_cases)
    case quote
    then show ?thesis by auto
  next
    case (char c r0 ch r1 str1)
    from scan_char_result [OF "1.prems"(1) char(3)] have ch: "ch \<le> 1114111"
      and sub: "set r1 \<subseteq> set s" by simp_all
    from valid_text_subset [OF "1.prems"(1) sub] have v1: "valid_text r1" .
    from "1.IH" [OF char(1,2,3) refl v1 char(4)] have wf1: "wf_str str1"
      and sub2: "set r \<subseteq> set r1"
      by simp_all
    have "wf_str (ch # str1)"
    proof (cases str1)
      case Nil
      with ch show ?thesis by simp
    next
      case (Cons d rest)
      have "\<not> (is_high_surrogate ch \<and> is_low_surrogate d)"
      proof
        assume hl: "is_high_surrogate ch \<and> is_low_surrogate d"
        from scan_char_high [OF "1.prems"(1) char(3)] hl have nl: "no_low_escape r1" by simp
        from char(4) Cons obtain r2 where "scan_char r1 = Some (d, r2)"
          by (cases rule: scanstring_cases) auto
        from scan_char_low [OF v1 this] hl nl show False
          by (auto simp: no_low_escape_def)
      qed
      with ch wf1 Cons show ?thesis by simp
    qed
    with sub sub2 char(5) show ?thesis by auto
  qed
qed

lemma match_integer_nonempty: "match_integer s = Some (ip, s1) \<Longrightarrow> ip \<noteq> []"
  by (auto simp: match_integer_def Let_def split: list.splits if_splits)

lemma match_number_result:
  assumes "float_codec_ok fc" and "match_number fc s = Some (v, r)"
  shows "wf_json fc v \<and> set r \<subseteq> set s \<and> length r < length s"
proof -
  from assms(2) obtain ip s1 fr s2 ex where
    m: "match_integer s = Some (ip, s1)" "match_frac s1 = (fr, s2)" "match_exp s2 = (ex, r)"
    and v: "v = (if fr \<noteq> [] \<or> ex \<noteq> []
                 then JFloat (float_of_str fc (map char_of (ip @ fr @ ex)))
                 else JInt (int_of_str ip))"
    by (auto simp: match_number_def split: option.splits prod.splits if_splits)
  from m have s: "s = ip @ fr @ ex @ r"
    by (auto dest!: match_integer_text match_frac_text match_exp_text)
  have "wf_json fc (JFloat x)" for x
    using assms(1) by (cases x) (simp_all add: float_codec_ok_def)
  with v have "wf_json fc v" by simp
  moreover from s have "set r \<subseteq> set s" by auto
  moreover from s match_integer_nonempty [OF m(1)] have "length r < length s"
    by (cases ip) auto
  ultimately show ?thesis by simp
qed

lemma scan_once_cases:
  assumes "scan_once fc s = Some (v, r)"
  obtains (str) r0 str where "s = 34 # r0" "scanstring r0 = Some (str, r)" "v = JStr str"
  | (obj_empty) r0 where "s = 123 # r0" "skip_ws r0 = 125 # r" "v = JObj []"
  | (obj) r0 r1 pairs where "s = 123 # r0" "skip_ws r0 = 34 # r1"
      "scan_object_items fc r1 = Some (pairs, r)" "v = JObj (dict_of_pairs pairs)"
  | (arr_empty) r0 where "s = 91 # r0" "skip_ws r0 = 93 # r" "v = JArr []"
  | (arr) r0 c1 r1 vs where "s = 91 # r0" "skip_ws r0 = c1 # r1"
      "scan_array_items fc (c1 # r1) = Some (vs, r)" "v = JArr vs"
  | (const) n where "s \<noteq> []" "0 < n" "r = drop n s"
      "v = JNull \<or> (\<exists>b. v = JBool b) \<or> v = JFloat NaN \<or> v = JFloat PosInf \<or> v = JFloat NegInf"
  | (num) "match_number fc s = Some (v, r)"
proof (cases s)
  case Nil
  with assms show ?thesis by (simp add: scan_once.simps)
next
  case (Cons c r0)
  consider "c = 34" | "c = 123" | "c = 91" | "c \<noteq> 34 \<and> c \<noteq> 123 \<and> c \<noteq> 91" by blast
  then show ?thesis
  proof cases
    case 1
    with assms Cons str show ?thesis
      by (subst (asm) scan_once.simps) (auto split: option.splits)
  next
    case 2
    with assms Cons obj_empty obj show ?thesis
      by (subst (asm) scan_once.simps) (auto split: option.splits list.splits if_splits)
  next
    case 3
    with assms Cons arr_empty arr show ?thesis
      by (subst (asm) scan_once.simps) (auto split: option.splits list.splits if_splits)
  next
    case 4
    show ?thesis
    proof (cases "match_number fc s")
      case (Some x)
      with 4 assms Cons const [of 4] const [of 5] num show ?thesis
        by (subst (asm) scan_once.simps) (auto split: if_splits)
    next
      case None
      with 4 assms Cons const [of 4] const [of 5] const [of 3] const [of 8] const [of 9]
      show ?thesis
        by (subst (asm) scan_once.simps) (auto split: if_splits)
    qed
  qed
qed

lemma scan_array_items_cases:
  assumes "scan_array_items fc s = Some (vs, r')"
  obtains (last) v r where "scan_once fc s = Some (v, r)" "length r < length s"
      "skip_ws r = 93 # r'" "vs = [v]"
  | (more) v r r1 vs1 where "scan_once fc s = Some (v, r)" "length r < length s"
      "skip_ws r = 44 # r1" "scan_array_items fc (skip_ws r1) = Some (vs1, r')" "vs = v # vs1"
  using assms
  by (subst (asm) scan_array_items.simps) (auto split: option.splits list.splits if_splits)

lemma scan_object_items_cases:
  assumes "scan_object_items fc s = Some (ps, r')"
  obtains (last) k r r1 v r2 where "scanstring s = Some (k, r)" "skip_ws r = 58 # r1"
      "scan_once fc (skip_ws r1) = Some (v, r2)" "length r2 < length s"
      "skip_ws r2 = 125 # r'" "ps = [(k, v)]"
  | (more) k r r1 v r2 r3 r4 ps1 where "scanstring s = Some (k, r)" "skip_ws r = 58 # r1"
      "scan_once fc (skip_ws r1) = Some (v, r2)" "length r2 < length s"
      "skip_ws r2 = 44 # r3" "skip_ws r3 = 34 # r4"
      "scan_object_items fc r4 = Some (ps1, r')" "ps = (k, v) # ps1"
  using assms
  by (subst (asm) scan_object_items.simps) (auto split: option.splits list.splits if_splits)

lemma skip_ws_Cons:
  assumes "skip_ws r = c # r1"
  shows "set r1 \<subseteq> set r \<and> length r1 < length r \<and> set (c # r1) \<subseteq> set r"
  using set_skip_ws [of r] length_skip_ws [of r] assms by auto

lemma wf_dict_of_pairs:
  assumes "\<forall>kv \<in> set ps. wf_str (fst kv) \<and> wf_json fc (snd kv)"
  shows "wf_json fc (JObj (dict_of_pairs ps))"
proof -
  have "distinct (map fst (dict_of_pairs ps))"
    using distinct_dict_update [of "[]" ps] by (simp add: dict_of_pairs_def)
  moreover have "set (dict_of_pairs ps) \<subseteq> set ps"
    using set_dict_update [of "[]" ps] by (simp add: dict_of_pairs_def)
  ultimately show ?thesis using assms by auto
qed

lemma scan_unicode_escape_subset: "scan_unicode_escape s = Some (ch, r) \<Longrightarrow> set r \<subseteq> set s"
  by (auto simp: scan_unicode_escape_def split: option.splits if_splits
      dest: set_drop_subset [THEN subsetD])

lemma scan_char_subset: "scan_char s = Some (ch, r) \<Longrightarrow> set r \<subseteq> set s"
  by (auto simp: scan_char_def split: list.splits if_splits
      dest!: scan_unicode_escape_subset)

lemma scanstring_subset: "scanstring s = Some (str, r) \<Longrightarrow> set r \<subseteq> set s"
proof (induction s arbitrary: str rule: scanstring.induct)
  case (1 s)
  from "1.prems" show ?case
  proof (cases rule: scanstring_cases)
    case quote
    then show ?thesis by auto
  next
    case (char c r0 ch r1 str1)
    from "1.IH" [OF char(1,2,3) refl char(4)] scan_char_subset [OF char(3)]
    show ?thesis by auto
  qed
qed

lemma match_number_shorter:
  assumes "match_number fc s = Some (v, r)"
  shows "set r \<subseteq> set s \<and> length r < length s"
proof -
  from assms obtain ip s1 fr s2 ex where
    m: "match_integer s = Some (ip, s1)" "match_frac s1 = (fr, s2)" "match_exp s2 = (ex, r)"
    by (auto simp: match_number_def split: option.splits prod.splits if_splits)
  then have s: "s = ip @ fr @ ex @ r"
    by (auto dest!: match_integer_text match_frac_text match_exp_text)
  then have "set r \<subseteq> set s" by auto
  moreover from s match_integer_nonempty [OF m(1)] have "length r < length s"
    by (cases ip) auto
  ultimately show ?thesis by simp
qed

text \<open>
  Every scan consumes at least one character, so the two length tests in the definition
  of the scanner never fail. Every value the decoder returns from the text of a file is
  well formed.
\<close>

lemma scan_result:
  "(\<forall>v r. scan_once fc s = Some (v, r) \<longrightarrow>
       set r \<subseteq> set s \<and> length r < length s
       \<and> (float_codec_ok fc \<and> valid_text s \<longrightarrow> wf_json fc v))
    \<and> (\<forall>vs r. scan_array_items fc s = Some (vs, r) \<longrightarrow>
       set r \<subseteq> set s \<and> length r < length s
       \<and> (float_codec_ok fc \<and> valid_text s \<longrightarrow> (\<forall>v \<in> set vs. wf_json fc v)))
    \<and> (\<forall>ps r. scan_object_items fc s = Some (ps, r) \<longrightarrow>
       set r \<subseteq> set s \<and> length r < length s
       \<and> (float_codec_ok fc \<and> valid_text s \<longrightarrow>
            (\<forall>kv \<in> set ps. wf_str (fst kv) \<and> wf_json fc (snd kv))))"
proof (induction "length s" arbitrary: s rule: less_induct)
  case less
  have vts: "valid_text t" if "valid_text s" "set t \<subseteq> set s" for t
    using that by (rule valid_text_subset)
  have IH1: "set r \<subseteq> set t \<and> length r < length t
      \<and> (float_codec_ok fc \<and> valid_text s \<longrightarrow> wf_json fc v)"
    if "length t < length s" "set t \<subseteq> set s" "scan_once fc t = Some (v, r)" for t v r
    using less.hyps [OF that(1)] that(2,3) vts by blast
  have IH2: "set r \<subseteq> set t \<and> length r < length t
      \<and> (float_codec_ok fc \<and> valid_text s \<longrightarrow> (\<forall>v \<in> set vs. wf_json fc v))"
    if "length t < length s" "set t \<subseteq> set s" "scan_array_items fc t = Some (vs, r)" for t vs r
    using less.hyps [OF that(1)] that(2,3) vts by blast
  have IH3: "set r \<subseteq> set t \<and> length r < length t
      \<and> (float_codec_ok fc \<and> valid_text s \<longrightarrow>
           (\<forall>kv \<in> set ps. wf_str (fst kv) \<and> wf_json fc (snd kv)))"
    if "length t < length s" "set t \<subseteq> set s" "scan_object_items fc t = Some (ps, r)" for t ps r
    using less.hyps [OF that(1)] that(2,3) vts by blast
  have P1: "set r \<subseteq> set s \<and> length r < length s
      \<and> (float_codec_ok fc \<and> valid_text s \<longrightarrow> wf_json fc v)"
    if "scan_once fc s = Some (v, r)" for v r
    using that
  proof (cases rule: scan_once_cases)
    case (str r0 str)
    have "wf_str str" if "valid_text s"
      using scanstring_wf [OF vts [OF that] str(2)] str(1) by auto
    with scanstring_subset [OF str(2)] scanstring_shorter [OF str(2)] str(1,3)
    show ?thesis by auto
  next
    case (obj_empty r0)
    with skip_ws_Cons [OF obj_empty(2)] show ?thesis by auto
  next
    case (obj r0 r1 pairs)
    from skip_ws_Cons [OF obj(2)] obj(1)
    have l: "length r1 < length s" and sub: "set r1 \<subseteq> set s" by auto
    from IH3 [OF l sub obj(3)] wf_dict_of_pairs [of pairs fc] obj(4) l sub
    show ?thesis by auto
  next
    case (arr_empty r0)
    with skip_ws_Cons [OF arr_empty(2)] show ?thesis by auto
  next
    case (arr r0 c1 r1 vs)
    from skip_ws_Cons [OF arr(2)] arr(1)
    have l: "length (c1 # r1) < length s" and sub: "set (c1 # r1) \<subseteq> set s" by auto
    from IH2 [OF l sub arr(3)] arr(4) l sub show ?thesis by auto
  next
    case (const n)
    then have "length (drop n s) < length s" by (cases s) auto
    with const set_drop_subset [of n s] show ?thesis by auto
  next
    case num
    from match_number_shorter [OF num] match_number_result [OF _ num] show ?thesis by simp
  qed
  have P2: "set r \<subseteq> set s \<and> length r < length s
      \<and> (float_codec_ok fc \<and> valid_text s \<longrightarrow> (\<forall>v \<in> set vs. wf_json fc v))"
    if "scan_array_items fc s = Some (vs, r)" for vs r
    using that
  proof (cases rule: scan_array_items_cases)
    case (last v r0)
    from P1 [OF last(1)] skip_ws_Cons [OF last(3)] last(4) show ?thesis by auto
  next
    case (more v r0 r1 vs1)
    from P1 [OF more(1)] skip_ws_Cons [OF more(3)] set_skip_ws [of r1] length_skip_ws [of r1]
    have l: "length (skip_ws r1) < length s" and sub: "set (skip_ws r1) \<subseteq> set s"
      and wfv: "float_codec_ok fc \<and> valid_text s \<longrightarrow> wf_json fc v" by auto
    from IH2 [OF l sub more(4)] more(5) wfv l sub show ?thesis by auto
  qed
  have P3: "set r \<subseteq> set s \<and> length r < length s
      \<and> (float_codec_ok fc \<and> valid_text s \<longrightarrow>
           (\<forall>kv \<in> set ps. wf_str (fst kv) \<and> wf_json fc (snd kv)))"
    if "scan_object_items fc s = Some (ps, r)" for ps r
    using that
  proof (cases rule: scan_object_items_cases)
    case (last k r0 r1 v r2)
    have wfk: "wf_str k" if "valid_text s"
      using scanstring_wf [OF that last(1)] by simp
    from scanstring_subset [OF last(1)] scanstring_shorter [OF last(1)] skip_ws_Cons [OF last(2)]
      set_skip_ws [of r1] length_skip_ws [of r1]
    have l: "length (skip_ws r1) < length s" and sub: "set (skip_ws r1) \<subseteq> set s" by auto
    from IH1 [OF l sub last(3)] skip_ws_Cons [OF last(5)] last(6) wfk l sub
    show ?thesis by auto
  next
    case (more k r0 r1 v r2 r3 r4 ps1)
    have wfk: "wf_str k" if "valid_text s"
      using scanstring_wf [OF that more(1)] by simp
    from scanstring_subset [OF more(1)] scanstring_shorter [OF more(1)] skip_ws_Cons [OF more(2)]
      set_skip_ws [of r1] length_skip_ws [of r1]
    have l: "length (skip_ws r1) < length s" and sub: "set (skip_ws r1) \<subseteq> set s" by auto
    from IH1 [OF l sub more(3)]
    have wfv: "float_codec_ok fc \<and> valid_text s \<longrightarrow> wf_json fc v"
      and sub2: "set r2 \<subseteq> set (skip_ws r1)"
      and l2: "length r2 < length (skip_ws r1)" by auto
    from skip_ws_Cons [OF more(5)] skip_ws_Cons [OF more(6)] sub2 l2 l sub
    have l4: "length r4 < length s" and sub4: "set r4 \<subseteq> set s" by auto
    from IH3 [OF l4 sub4 more(7)] more(8) wfk wfv l4 sub4 show ?thesis by auto
  qed
  from P1 P2 P3 show ?case by blast
qed

lemma scan_once_shorter: "scan_once fc s = Some (v, r) \<Longrightarrow> length r < length s"
  using scan_result [of fc s] by blast

lemma loads_wf:
  assumes "float_codec_ok fc" and "valid_text s" and "loads fc s = Some v"
  shows "wf_json fc v"
proof -
  from assms(3) obtain r where "scan_once fc (skip_ws s) = Some (v, r)"
    by (auto simp: loads_def split: if_splits option.splits)
  moreover have "valid_text (skip_ws s)"
    by (rule valid_text_subset [OF assms(2) set_skip_ws])
  ultimately show ?thesis using scan_result [of fc "skip_ws s"] assms(1) by blast
qed

section \<open>The template\<close>

lemma wf_str_ascii: "\<forall>c \<in> set s. c < 128 \<Longrightarrow> wf_str s"
  by (induction s rule: wf_str.induct) (auto simp: is_high_surrogate_def)

lemma wf_str_pystr: "\<forall>c \<in> set s. (of_char c :: nat) < 128 \<Longrightarrow> wf_str (pystr s)"
  by (rule wf_str_ascii) (simp add: pystr_def)

lemma wf_new_entries:
  "\<forall>kv \<in> set (new_entries :: (pystr \<times> 'f json) list). wf_str (fst kv) \<and> wf_json fc (snd kv)"
  by (simp add: new_entries_def wf_str_pystr) (simp add: pystr_def)

lemma distinct_new_entries: "distinct (map fst (new_entries :: (pystr \<times> 'f json) list))"
  by (simp add: new_entries_def pystr_def)

lemma wf_config_template: "wf_json fc config_template"
  using wf_new_entries [of fc] distinct_new_entries
  by (simp add: config_template_def mcpServers_def wf_str_pystr)

section \<open>The script: what a run does\<close>

lemma load_config_fs_dir: "load_config fc flt (fs\<lparr>fs_dir := b\<rparr>) = load_config fc flt fs"
  by (simp add: load_config_def)

lemma load_config_no_file: "fs_file fs = None \<Longrightarrow> load_config fc flt fs = Inr (config_template, [])"
  by (simp add: load_config_def)

lemma load_config_parsed:
  assumes "read_error flt = None" and "fs_file fs = Some content"
    and "utf8_decode content = Some s" and "loads fc s = Some v"
  shows "load_config fc flt fs
    = (case merge_existing v of Inl err \<Rightarrow> Inl err | Inr merged \<Rightarrow> Inr (merged, []))"
  using assms by (simp add: load_config_def)

lemma load_config_unparsed:
  assumes "read_error flt = None" and "fs_file fs = Some content"
    and "utf8_decode content = Some s" and "loads fc s = None"
  shows "load_config fc flt fs = Inr (config_template, [warning])"
  using assms by (simp add: load_config_def)

lemma run_raises_in_load:
  assumes "mkdir_error flt = None" and "load_config fc flt fs = Inl err"
  shows "create_claude_config fc home flt fs
    = \<lparr>result = Inl err, fs_after = fs\<lparr>fs_dir := True\<rparr>, stdout = [], dumped = None\<rparr>"
  using assms by (simp add: create_claude_config_def load_config_fs_dir)

lemma run_dumped:
  assumes "mkdir_error flt = None" and "open_error flt = None"
    and "load_config fc flt fs = Inr (cfg, out)"
  shows "dumped (create_claude_config fc home flt fs) = Some cfg"
  using assms
  by (cases "write_text flt (dumps fc cfg)"; cases "fst (write_text flt (dumps fc cfg))")
    (simp_all add: create_claude_config_def load_config_fs_dir)

lemma write_text_ascii:
  assumes "write_error flt = None" and "\<forall>c \<in> set s. c < 128"
  shows "write_text flt s = (None, map char_of s)"
  using assms utf8_encode_ascii [of s] by (simp add: write_text_def)

lemma run_returns:
  assumes "mkdir_error flt = None" and "open_error flt = None" and "write_error flt = None"
    and "load_config fc flt fs = Inr (cfg, out)" and "wf_json fc cfg"
  shows "create_claude_config fc home flt fs
    = \<lparr>result = Inr (config_file home),
       fs_after = fs\<lparr>fs_dir := True, fs_file := Some (map char_of (dumps fc cfg))\<rparr>,
       stdout = out @ next_steps (config_file home), dumped = Some cfg\<rparr>"
  using assms write_text_ascii [OF assms(3) wf_json_ascii [OF assms(5)]]
  by (simp add: create_claude_config_def load_config_fs_dir)

lemma written_reads_back:
  assumes "wf_json fc cfg"
  shows "utf8_decode (map char_of (dumps fc cfg)) = Some (dumps fc cfg)"
    and "loads fc (dumps fc cfg) = Some cfg"
  using utf8_decode_ascii [OF wf_json_ascii [OF assms]] loads_dumps [OF assms] by simp_all

subsection \<open>The merge\<close>

lemma dict_get_Some_mem: "dict_get k d = Some v \<Longrightarrow> (k, v) \<in> set d"
  by (simp add: dict_get_def map_of_SomeD)

lemma map_fst_dict_set:
  "map fst (dict_set k v d) = (if k \<in> fst ` set d then map fst d else map fst d @ [k])"
  by (induction d) auto

lemma other_keys_dict_set:
  "filter (\<lambda>x. x \<noteq> k) (map fst (dict_set k v d)) = filter (\<lambda>x. x \<noteq> k) (map fst d)"
  by (simp add: map_fst_dict_set)

text \<open>
  On a dictionary whose \<^verbatim>\<open>mcpServers\<close> entry is absent or a dictionary, lines 58 to 62
  replace that entry by the old servers updated with the new ones, and nothing else.
\<close>

definition old_servers :: "(pystr \<times> 'f json) list \<Rightarrow> (pystr \<times> 'f json) list" where
  "old_servers d = (case dict_get mcpServers d of Some (JObj old) \<Rightarrow> old | _ \<Rightarrow> [])"

lemma merge_existing_object:
  assumes "dict_get mcpServers d = None \<or> (\<exists>old. dict_get mcpServers d = Some (JObj old))"
  shows "merge_existing (JObj d)
    = Inr (JObj (dict_set mcpServers (JObj (dict_update (old_servers d) new_entries))
        (if dict_contains mcpServers d then d else dict_set mcpServers (JObj []) d)))"
  using assms
  by (auto simp: old_servers_def dict_contains_get dict_get_set Let_def)

lemma merge_existing_not_dict:
  assumes "dict_get mcpServers d = Some v" and "\<forall>old. v \<noteq> JObj old"
  shows "merge_existing (JObj d) = Inl AttributeError"
  using assms by (cases v) (simp_all add: dict_contains_get Let_def)

lemma merge_existing_servers:
  assumes "merge_existing (JObj d) = Inr v"
  obtains d' where "v = JObj d'"
    and "dict_get mcpServers d' = Some (JObj (dict_update (old_servers d) new_entries))"
    and "\<forall>k. k \<noteq> mcpServers \<longrightarrow> dict_get k d' = dict_get k d"
    and "filter (\<lambda>x. x \<noteq> mcpServers) (map fst d') = filter (\<lambda>x. x \<noteq> mcpServers) (map fst d)"
proof -
  have ok: "dict_get mcpServers d = None \<or> (\<exists>old. dict_get mcpServers d = Some (JObj old))"
  proof (cases "dict_get mcpServers d")
    case (Some x)
    with assms merge_existing_not_dict [OF Some] show ?thesis by (cases x) auto
  qed simp
  from merge_existing_object [OF ok] assms that show ?thesis
    by (auto simp: dict_get_set other_keys_dict_set)
qed

lemma dict_update_new_entries:
  "dict_get k (dict_update old new_entries)
    = (case dict_get k new_entries of Some v \<Rightarrow> Some v | None \<Rightarrow> dict_get k old)"
  by (rule dict_get_update [OF distinct_new_entries])

lemma wf_dict_set:
  assumes "wf_json fc (JObj d)" and "wf_str k" and "wf_json fc v"
  shows "wf_json fc (JObj (dict_set k v d))"
  using assms distinct_dict_set [of d k v] set_dict_set [of k v d] by auto

lemma wf_dict_update:
  assumes "wf_json fc (JObj d)" and "\<forall>kv \<in> set ps. wf_str (fst kv) \<and> wf_json fc (snd kv)"
  shows "wf_json fc (JObj (dict_update d ps))"
  using assms distinct_dict_update [of d ps] set_dict_update [of d ps] by auto

lemma wf_mcpServers: "wf_str mcpServers"
  by (simp add: mcpServers_def wf_str_pystr)

lemma wf_old_servers:
  assumes "wf_json fc (JObj d)"
  shows "wf_json fc (JObj (old_servers d))"
proof (cases "\<exists>old. dict_get mcpServers d = Some (JObj old)")
  case True
  then obtain old where g: "dict_get mcpServers d = Some (JObj old)" by blast
  from dict_get_Some_mem [OF g] assms have "wf_json fc (JObj old)" by fastforce
  with g show ?thesis by (simp add: old_servers_def)
next
  case False
  then have "old_servers d = []"
    by (auto simp: old_servers_def split: option.splits json.splits)
  then show ?thesis by simp
qed

lemma merge_existing_Inr:
  assumes "merge_existing v = Inr v'"
  obtains d where "v = JObj d"
    and "dict_get mcpServers d = None \<or> (\<exists>old. dict_get mcpServers d = Some (JObj old))"
proof (cases v)
  case (JObj d)
  have "dict_get mcpServers d = None \<or> (\<exists>old. dict_get mcpServers d = Some (JObj old))"
  proof (cases "dict_get mcpServers d")
    case (Some x)
    with assms JObj merge_existing_not_dict [OF Some] show ?thesis by (cases x) auto
  qed simp
  with JObj that show ?thesis by blast
qed (use assms in simp_all)

lemma merge_existing_wf:
  assumes "wf_json fc v" and "merge_existing v = Inr v'"
  shows "wf_json fc v'"
proof -
  from assms(2) obtain d where v: "v = JObj d"
    and ok: "dict_get mcpServers d = None \<or> (\<exists>old. dict_get mcpServers d = Some (JObj old))"
    by (rule merge_existing_Inr)
  let ?d1 = "if dict_contains mcpServers d then d else dict_set mcpServers (JObj []) d"
  from assms(1) v have wfd: "wf_json fc (JObj d)" by simp
  then have "wf_json fc (JObj ?d1)"
    using wf_dict_set [OF wfd wf_mcpServers, of "JObj []"] by simp
  moreover have "wf_json fc (JObj (dict_update (old_servers d) new_entries))"
    by (rule wf_dict_update [OF wf_old_servers [OF wfd] wf_new_entries])
  ultimately have "wf_json fc (JObj (dict_set mcpServers
      (JObj (dict_update (old_servers d) new_entries)) ?d1))"
    by (rule wf_dict_set [OF _ wf_mcpServers])
  with merge_existing_object [OF ok] assms(2) v show ?thesis by simp
qed

lemma load_config_wf:
  assumes "float_codec_ok fc" and "load_config fc flt fs = Inr (cfg, out)"
  shows "wf_json fc cfg"
proof (cases "fs_file fs")
  case None
  with assms(2) show ?thesis by (simp add: load_config_def wf_config_template)
next
  case (Some content)
  with assms(2) obtain s where re: "read_error flt = None" and dec: "utf8_decode content = Some s"
    by (auto simp: load_config_def split: option.splits)
  show ?thesis
  proof (cases "loads fc s")
    case None
    from load_config_unparsed [OF re Some dec None] assms(2) show ?thesis
      by (simp add: wf_config_template)
  next
    case (Some v)
    from loads_wf [OF assms(1) utf8_decode_valid [OF dec] Some] have wfv: "wf_json fc v" .
    from load_config_parsed [OF re \<open>fs_file fs = Some content\<close> dec Some] assms(2)
    have "merge_existing v = Inr cfg" by (auto split: sum.splits)
    from merge_existing_wf [OF wfv this] show ?thesis .
  qed
qed

section \<open>Examples\<close>

text \<open>
  A float codec with two floats, one printing as \<^verbatim>\<open>1.5\<close> and one as \<^verbatim>\<open>-0.002\<close>; a home
  directory; a file system without configuration file; and a configuration with a
  setting of its own, a server of its own and an older \<^verbatim>\<open>authentik-full\<close> entry, together
  with the file that holds it.
\<close>

definition example_codec :: "bool float_codec" where
  "example_codec =
    \<lparr>float_of_str = (\<lambda>s. Finite (s = ''1.5'')),
     float_repr = (\<lambda>b. if b then ''1.5'' else ''-0.002'')\<rparr>"

definition example_home :: path where
  "example_home = [''home'', ''user'']"

definition fresh_fs :: filesystem where
  "fresh_fs = \<lparr>fs_dir = False, fs_file = None\<rparr>"

definition example_servers :: "(pystr \<times> bool json) list" where
  "example_servers =
    [(pystr ''foo'', JObj [(pystr ''command'', JStr (pystr ''foo-server''))]),
     (pystr ''authentik-full'', JObj [(pystr ''command'', JStr (pystr ''old''))])]"

definition example_config :: "(pystr \<times> bool json) list" where
  "example_config =
    [(pystr ''scale'', JFloat (Finite True)),
     (mcpServers, JObj example_servers),
     (pystr ''theme'', JStr (pystr ''dark''))]"

definition example_file :: string where
  "example_file = map char_of (dumps example_codec (JObj example_config))"

definition example_fs :: filesystem where
  "example_fs = \<lparr>fs_dir = True, fs_file = Some example_file\<rparr>"

lemmas number_eval = float_token_def match_integer_def match_frac_def match_exp_def
  is_digit_def pystr_def

lemma example_codec_ok: "float_codec_ok example_codec"
proof -
  have "float_ok example_codec x" for x
    by (cases x) (simp_all add: float_ok_def example_codec_def number_eval)
  then show ?thesis by (simp add: float_codec_ok_def)
qed

lemma wf_example_config: "wf_json example_codec (JObj example_config)"
  using example_codec_ok
  by (simp add: example_config_def example_servers_def wf_str_pystr wf_mcpServers
      float_codec_ok_def)
    (simp add: pystr_def mcpServers_def)

lemma example_file_reads:
  "utf8_decode example_file = Some (dumps example_codec (JObj example_config))"
  "loads example_codec (dumps example_codec (JObj example_config)) = Some (JObj example_config)"
  using written_reads_back [OF wf_example_config] by (simp_all add: example_file_def)

lemma example_mcpServers: "dict_get mcpServers example_config = Some (JObj example_servers)"
  by (simp add: example_config_def dict_get_def mcpServers_def pystr_def)

text \<open>Evaluating the decoder on a short ASCII file.\<close>

lemma utf8_decode_pystr:
  assumes "\<forall>c \<in> set bs. (of_char c :: nat) < 128"
  shows "utf8_decode bs = Some (pystr bs)"
proof -
  have "map char_of (pystr bs) = bs" by (simp add: pystr_def)
  with utf8_decode_ascii [of "pystr bs"] assms show ?thesis by (simp add: pystr_def)
qed

lemmas scan_eval = loads_def scan_once.simps scan_array_items.simps scan_object_items.simps
  scanstring.simps scan_char_def skip_ws_def is_ws_def pystr_def match_number_def
  match_integer_def match_frac_def match_exp_def is_digit_def int_of_str_def nat_of_digits_def

section \<open>The claims\<close>

subsection \<open>C1: the merge keeps what was there and adds the new entries\<close>

text \<open>
  C1. Let the existing file hold a JSON object whose \<^verbatim>\<open>mcpServers\<close> entry is absent or an
  object. Then the configuration handed to \<^verbatim>\<open>json.dump\<close> is an object whose \<^verbatim>\<open>mcpServers\<close>
  entry is an object that maps every identifier of the new entries to its new value and
  every other identifier to what the old entry mapped it to; if there was no
  \<^verbatim>\<open>mcpServers\<close> entry, the new one is exactly the new entries.
\<close>

theorem merge_keeps_and_adds_entries:
  fixes fc :: "'f float_codec"
  assumes "mkdir_error flt = None" and "read_error flt = None" and "open_error flt = None"
    and "fs_file fs = Some content" and "utf8_decode content = Some s"
    and "loads fc s = Some (JObj d)"
    and "dict_get mcpServers d = None \<or> (\<exists>old. dict_get mcpServers d = Some (JObj old))"
  shows "\<exists>d' servers.
      dumped (create_claude_config fc home flt fs) = Some (JObj d')
    \<and> dict_get mcpServers d' = Some (JObj servers)
    \<and> (\<forall>k v. dict_get k new_entries = Some v \<longrightarrow> dict_get k servers = Some v)
    \<and> (\<forall>k. dict_get k (new_entries :: (pystr \<times> 'f json) list) = None
          \<longrightarrow> dict_get k servers = dict_get k (old_servers d))
    \<and> (dict_get mcpServers d = None \<longrightarrow> servers = new_entries)"
proof -
  from merge_existing_object [OF assms(7)] obtain v where m: "merge_existing (JObj d) = Inr v"
    by simp
  from m obtain d' where v: "v = JObj d'"
    and g: "dict_get mcpServers d' = Some (JObj (dict_update (old_servers d) new_entries))"
    by (rule merge_existing_servers)
  from load_config_parsed [OF assms(2,4,5,6)] m v
  have "load_config fc flt fs = Inr (JObj d', [])" by simp
  from run_dumped [OF assms(1,3) this]
  have du: "dumped (create_claude_config fc home flt fs) = Some (JObj d')" .
  have fresh: "dict_update (old_servers d) new_entries = new_entries"
    if "dict_get mcpServers d = None"
    using that dict_of_pairs_distinct [OF distinct_new_entries]
    by (simp add: old_servers_def dict_of_pairs_def)
  from du g fresh show ?thesis
    by (auto simp: dict_update_new_entries)
qed

theorem merge_keeps_and_adds_entries_witness:
  "dict_get mcpServers example_config = Some (JObj example_servers)
   \<and> (\<exists>d' servers.
        dumped (create_claude_config example_codec example_home no_faults example_fs)
          = Some (JObj d')
      \<and> dict_get mcpServers d' = Some (JObj servers)
      \<and> dict_get (pystr ''authentik-diag'') servers
          = dict_get (pystr ''authentik-diag'') new_entries
      \<and> dict_get (pystr ''authentik-full'') servers
          = dict_get (pystr ''authentik-full'') new_entries
      \<and> dict_get (pystr ''foo'') servers
          = Some (JObj [(pystr ''command'', JStr (pystr ''foo-server''))]))"
proof -
  have f: "fs_file example_fs = Some example_file" by (simp add: example_fs_def)
  have n: "dict_get (pystr ''foo'') (new_entries :: (pystr \<times> bool json) list) = None"
    "dict_get (pystr ''authentik-diag'') (new_entries :: (pystr \<times> bool json) list) \<noteq> None"
    "dict_get (pystr ''authentik-full'') (new_entries :: (pystr \<times> bool json) list) \<noteq> None"
    by (simp_all add: new_entries_def dict_get_def pystr_def)
  have o: "dict_get (pystr ''foo'') (old_servers example_config)
      = Some (JObj [(pystr ''command'', JStr (pystr ''foo-server''))])"
    by (simp add: old_servers_def example_mcpServers) (simp add: example_servers_def dict_get_def)
  from merge_keeps_and_adds_entries [of no_faults example_fs example_file _ example_codec
      example_config example_home, OF _ _ _ f example_file_reads] example_mcpServers n o
  show ?thesis by (fastforce simp: no_faults_def)
qed

subsection \<open>C2: a file that is not JSON\<close>




subsection \<open>C3: a run that finds no file\<close>

text \<open>
  C3. If there is no file at the path and no operation fails, the run returns the path,
  the directory exists afterwards, the value handed to \<^verbatim>\<open>json.dump\<close> is the configuration
  with the one key \<^verbatim>\<open>mcpServers\<close> over the new entries, and the file written decodes and
  parses to exactly that configuration.
\<close>

theorem fresh_run_writes_the_template:
  assumes "fs_file fs = None" and "mkdir_error flt = None" and "open_error flt = None"
    and "write_error flt = None"
  shows "result (create_claude_config fc home flt fs) = Inr (config_file home)
    \<and> fs_dir (fs_after (create_claude_config fc home flt fs))
    \<and> dumped (create_claude_config fc home flt fs) = Some (JObj [(mcpServers, JObj new_entries)])
    \<and> (\<exists>bytes s. fs_file (fs_after (create_claude_config fc home flt fs)) = Some bytes
          \<and> utf8_decode bytes = Some s
          \<and> loads fc s = Some (JObj [(mcpServers, JObj new_entries)]))"
  using run_returns [OF assms(2-4) load_config_no_file [OF assms(1)] wf_config_template,
      of fc home]
    written_reads_back [OF wf_config_template, of fc]
  by (simp add: config_template_def)

theorem fresh_run_writes_the_template_witness:
  "fs_file fresh_fs = None
   \<and> result (create_claude_config example_codec example_home no_faults fresh_fs)
       = Inr [''home'', ''user'', ''.config'', ''claude-desktop'', ''claude_desktop_config.json'']
   \<and> dumped (create_claude_config example_codec example_home no_faults fresh_fs)
       = Some (JObj [(mcpServers, JObj new_entries)])
   \<and> (\<exists>bytes s.
         fs_file (fs_after (create_claude_config example_codec example_home no_faults fresh_fs))
           = Some bytes
       \<and> utf8_decode bytes = Some s
       \<and> loads example_codec s = Some (JObj [(mcpServers, JObj new_entries)]))"
proof -
  have f: "fs_file fresh_fs = None" by (simp add: fresh_fs_def)
  from fresh_run_writes_the_template [of fresh_fs no_faults example_codec example_home, OF f] f
  show ?thesis by (simp add: no_faults_def config_file_def config_dir_def example_home_def)
qed

subsection \<open>C4: a colliding entry is overwritten\<close>

text \<open>
  C4. If the existing configuration has, under \<^verbatim>\<open>mcpServers\<close>, an entry under an identifier
  that also occurs in the new entries, the configuration handed to \<^verbatim>\<open>json.dump\<close> maps
  that identifier to the new value, whatever the old one was.
\<close>

theorem colliding_entry_is_overwritten:
  fixes fc :: "'f float_codec" and b :: "'f json"
  assumes "mkdir_error flt = None" and "read_error flt = None" and "open_error flt = None"
    and "fs_file fs = Some content" and "utf8_decode content = Some s"
    and "loads fc s = Some (JObj d)"
    and "dict_get mcpServers d = Some (JObj old)"
    and "dict_get k old = Some a" and "dict_get k new_entries = Some b"
  shows "\<exists>d' servers.
      dumped (create_claude_config fc home flt fs) = Some (JObj d')
    \<and> dict_get mcpServers d' = Some (JObj servers)
    \<and> dict_get k servers = Some b"
proof -
  from assms(7) have ok: "dict_get mcpServers d = None
      \<or> (\<exists>old. dict_get mcpServers d = Some (JObj old))" by simp
  from merge_existing_object [OF ok] obtain v where m: "merge_existing (JObj d) = Inr v"
    by simp
  from m obtain d' where v: "v = JObj d'"
    and g: "dict_get mcpServers d' = Some (JObj (dict_update (old_servers d) new_entries))"
    by (rule merge_existing_servers)
  from load_config_parsed [OF assms(2,4,5,6)] m v
  have "load_config fc flt fs = Inr (JObj d', [])" by simp
  from run_dumped [OF assms(1,3) this] g assms(9) show ?thesis
    by (simp add: dict_update_new_entries)
qed

theorem colliding_entry_is_overwritten_witness:
  "dict_get (pystr ''authentik-full'') example_servers
     = Some (JObj [(pystr ''command'', JStr (pystr ''old''))])
   \<and> (\<exists>d' servers.
        dumped (create_claude_config example_codec example_home no_faults example_fs)
          = Some (JObj d')
      \<and> dict_get mcpServers d' = Some (JObj servers)
      \<and> dict_get (pystr ''authentik-full'') servers
          = Some (JObj
              [(pystr ''command'', JStr (pystr ''uvx'')),
               (pystr ''args'', JArr [JStr (pystr ''authentik-mcp'')]),
               (pystr ''env'', JObj
                 [(pystr ''AUTHENTIK_BASE_URL'',
                   JStr (pystr ''https://your-authentik-instance.com'')),
                  (pystr ''AUTHENTIK_TOKEN'', JStr (pystr ''your-api-token-here''))])]))"
proof -
  have f: "fs_file example_fs = Some example_file" by (simp add: example_fs_def)
  have a: "dict_get (pystr ''authentik-full'') example_servers
      = Some (JObj [(pystr ''command'', JStr (pystr ''old''))])"
    by (simp add: example_servers_def dict_get_def pystr_def)
  have b: "dict_get (pystr ''authentik-full'') (new_entries :: (pystr \<times> bool json) list)
      = Some (JObj
              [(pystr ''command'', JStr (pystr ''uvx'')),
               (pystr ''args'', JArr [JStr (pystr ''authentik-mcp'')]),
               (pystr ''env'', JObj
                 [(pystr ''AUTHENTIK_BASE_URL'',
                   JStr (pystr ''https://your-authentik-instance.com'')),
                  (pystr ''AUTHENTIK_TOKEN'', JStr (pystr ''your-api-token-here''))])])"
    by (simp add: new_entries_def dict_get_def)
  from colliding_entry_is_overwritten [of no_faults example_fs example_file _ example_codec
      example_config example_servers _ _ _ example_home,
      OF _ _ _ f example_file_reads example_mcpServers a b] a
  show ?thesis by (simp add: no_faults_def)
qed

subsection \<open>C5: running twice\<close>

lemma dict_update_self_new_entries:
  "dict_update new_entries new_entries = (new_entries :: (pystr \<times> 'f json) list)"
  by (simp add: new_entries_def pystr_def)

lemma merge_existing_template:
  "merge_existing (config_template :: 'f json) = Inr config_template"
  by (simp add: config_template_def dict_contains_def dict_get_def dict_update_self_new_entries)

text \<open>
  C5. Starting without a file and without faults, a second run leaves the file with
  exactly the bytes the first run wrote.
\<close>

theorem second_run_writes_the_same_bytes:
  fixes fc :: "'f float_codec" and home :: path and fs :: filesystem
  assumes "fs_file fs = None"
  defines "run1 \<equiv> create_claude_config fc home no_faults fs"
  defines "run2 \<equiv> create_claude_config fc home no_faults (fs_after run1)"
  shows "result run1 = Inr (config_file home) \<and> result run2 = Inr (config_file home)
    \<and> fs_file (fs_after run1) = Some (map char_of (dumps fc config_template))
    \<and> fs_file (fs_after run2) = fs_file (fs_after run1)"
proof -
  have nf: "mkdir_error no_faults = None" "read_error no_faults = None"
    "open_error no_faults = None" "write_error no_faults = None"
    by (simp_all add: no_faults_def)
  have r1: "run1 = \<lparr>result = Inr (config_file home),
       fs_after = fs\<lparr>fs_dir := True, fs_file := Some (map char_of (dumps fc config_template))\<rparr>,
       stdout = [] @ next_steps (config_file home), dumped = Some config_template\<rparr>"
    unfolding run1_def
    by (rule run_returns [OF nf(1,3,4) load_config_no_file [OF assms(1)] wf_config_template])
  let ?fs1 = "fs\<lparr>fs_dir := True, fs_file := Some (map char_of (dumps fc config_template))\<rparr>"
  have "load_config fc no_faults ?fs1 = Inr (config_template, [])"
    using load_config_parsed [OF nf(2) _ written_reads_back [OF wf_config_template],
        of ?fs1 fc]
    by (simp add: merge_existing_template)
  from run_returns [OF nf(1,3,4) this wf_config_template, of home]
  have r2: "run2 = \<lparr>result = Inr (config_file home),
       fs_after = ?fs1\<lparr>fs_dir := True, fs_file := Some (map char_of (dumps fc config_template))\<rparr>,
       stdout = [] @ next_steps (config_file home), dumped = Some config_template\<rparr>"
    unfolding run2_def r1 by simp
  show ?thesis unfolding r1 r2 by simp
qed

theorem second_run_writes_the_same_bytes_witness:
  "fs_file fresh_fs = None
   \<and> fs_file (fs_after (create_claude_config example_codec example_home no_faults fresh_fs))
       = Some (map char_of (dumps example_codec config_template))
   \<and> fs_file (fs_after (create_claude_config example_codec example_home no_faults
        (fs_after (create_claude_config example_codec example_home no_faults fresh_fs))))
     = fs_file (fs_after (create_claude_config example_codec example_home no_faults fresh_fs))"
proof -
  have f: "fs_file fresh_fs = None" by (simp add: fresh_fs_def)
  from second_run_writes_the_same_bytes [of fresh_fs example_codec example_home, OF f] f
  show ?thesis by simp
qed

subsection \<open>C6: the written file reads back\<close>

lemma run_result_Inr:
  assumes "result (create_claude_config fc home flt fs) = Inr p"
  obtains cfg out bytes where "mkdir_error flt = None" "open_error flt = None"
    "load_config fc flt fs = Inr (cfg, out)" "write_text flt (dumps fc cfg) = (None, bytes)"
    "fs_file (fs_after (create_claude_config fc home flt fs)) = Some bytes"
    "dumped (create_claude_config fc home flt fs) = Some cfg"
  using assms
  by (auto simp: create_claude_config_def load_config_fs_dir Let_def
      split: option.splits sum.splits prod.splits)

lemma write_text_None:
  assumes "write_text flt s = (None, bytes)"
  shows "utf8_encode s = Some bytes"
  using assms by (auto simp: write_text_def split: option.splits prod.splits)

text \<open>
  C6. Whenever a run returns, the file it leaves decodes and parses to the very value
  that was handed to \<^verbatim>\<open>json.dump\<close>, key order included. (Equality here takes \<^verbatim>\<open>NaN\<close> as one
  value. So does Python's comparison of the two dictionaries: the decoder returns one
  shared \<^verbatim>\<open>NaN\<close> object, and containers compare their items by identity first.)
\<close>

theorem written_file_reads_back_as_dumped:
  assumes "float_codec_ok fc" and "result (create_claude_config fc home flt fs) = Inr p"
  shows "\<exists>bytes s cfg.
      fs_file (fs_after (create_claude_config fc home flt fs)) = Some bytes
    \<and> utf8_decode bytes = Some s
    \<and> loads fc s = Some cfg
    \<and> dumped (create_claude_config fc home flt fs) = Some cfg"
proof -
  from assms(2) obtain cfg out bytes where
    lc: "load_config fc flt fs = Inr (cfg, out)"
    and wt: "write_text flt (dumps fc cfg) = (None, bytes)"
    and f: "fs_file (fs_after (create_claude_config fc home flt fs)) = Some bytes"
    and du: "dumped (create_claude_config fc home flt fs) = Some cfg"
    by (rule run_result_Inr)
  from load_config_wf [OF assms(1) lc] have wf: "wf_json fc cfg" .
  from write_text_None [OF wt] utf8_encode_ascii [OF wf_json_ascii [OF wf]]
  have "bytes = map char_of (dumps fc cfg)" by simp
  with written_reads_back [OF wf] f du show ?thesis by simp
qed

lemma example_run:
  "\<exists>d'. create_claude_config example_codec example_home no_faults example_fs
    = \<lparr>result = Inr (config_file example_home),
       fs_after = example_fs\<lparr>fs_dir := True,
         fs_file := Some (map char_of (dumps example_codec (JObj d')))\<rparr>,
       stdout = [] @ next_steps (config_file example_home), dumped = Some (JObj d')\<rparr>
    \<and> (\<forall>k. k \<noteq> mcpServers \<longrightarrow> dict_get k d' = dict_get k example_config)
    \<and> wf_json example_codec (JObj d')"
proof -
  have nf: "mkdir_error no_faults = None" "read_error no_faults = None"
    "open_error no_faults = None" "write_error no_faults = None"
    by (simp_all add: no_faults_def)
  have f: "fs_file example_fs = Some example_file" by (simp add: example_fs_def)
  have ok: "dict_get mcpServers example_config = None
      \<or> (\<exists>old. dict_get mcpServers example_config = Some (JObj old))"
    by (simp add: example_mcpServers)
  from merge_existing_object [OF ok] obtain v where
    m: "merge_existing (JObj example_config) = Inr v" by simp
  from m obtain d' where v: "v = JObj d'"
    and oth: "\<forall>k. k \<noteq> mcpServers \<longrightarrow> dict_get k d' = dict_get k example_config"
    by (rule merge_existing_servers)
  from load_config_parsed [OF nf(2) f example_file_reads] m v
  have lc: "load_config example_codec no_faults example_fs = Inr (JObj d', [])" by simp
  from load_config_wf [OF example_codec_ok lc] have wf: "wf_json example_codec (JObj d')" .
  from run_returns [OF nf(1,3,4) lc wf, of example_home] oth wf show ?thesis by blast
qed

theorem written_file_reads_back_as_dumped_witness:
  "float_codec_ok example_codec
   \<and> result (create_claude_config example_codec example_home no_faults example_fs)
       = Inr (config_file example_home)
   \<and> (\<exists>bytes s cfg.
        fs_file (fs_after (create_claude_config example_codec example_home no_faults example_fs))
          = Some bytes
      \<and> utf8_decode bytes = Some s
      \<and> loads example_codec s = Some cfg
      \<and> dumped (create_claude_config example_codec example_home no_faults example_fs)
          = Some cfg)"
proof -
  from example_run have r: "result (create_claude_config example_codec example_home no_faults
      example_fs) = Inr (config_file example_home)" by auto
  from written_file_reads_back_as_dumped [OF example_codec_ok r] example_codec_ok r
  show ?thesis by simp
qed

subsection \<open>C7: the default entries\<close>

text \<open>
  The data model of the specification: a server descriptor holds a launch command (a
  string), an ordered sequence of launch arguments (strings) and a mapping of
  environment variable names to strings.
\<close>

fun as_str :: "'f json \<Rightarrow> pystr option" where
  "as_str (JStr s) = Some s"
| "as_str _ = None"

fun as_list :: "'f json \<Rightarrow> 'f json list option" where
  "as_list (JArr xs) = Some xs"
| "as_list _ = None"

fun as_dict :: "'f json \<Rightarrow> (pystr \<times> 'f json) list option" where
  "as_dict (JObj d) = Some d"
| "as_dict _ = None"

definition field :: "string \<Rightarrow> 'f json \<Rightarrow> 'f json option" where
  "field name v = Option.bind (as_dict v) (dict_get (pystr name))"

definition server_descriptor :: "'f json \<Rightarrow> bool" where
  "server_descriptor v =
    (Option.bind (field ''command'' v) as_str \<noteq> None
     \<and> (case Option.bind (field ''args'' v) as_list of
          None \<Rightarrow> False
        | Some args \<Rightarrow> list_all (\<lambda>a. as_str a \<noteq> None) args)
     \<and> (case Option.bind (field ''env'' v) as_dict of
          None \<Rightarrow> False
        | Some env \<Rightarrow> list_all (\<lambda>kv. as_str (snd kv) \<noteq> None) env))"

definition env_names :: "'f json \<Rightarrow> pystr list" where
  "env_names v =
    (case Option.bind (field ''env'' v) as_dict of None \<Rightarrow> [] | Some env \<Rightarrow> map fst env)"

text \<open>
  C7. The entries the script adds do not depend on anything: whatever the float codec,
  the faults and the state of the directory, a run that finds no file takes the
  configuration with the one key \<^verbatim>\<open>mcpServers\<close> over these entries. They are exactly two,
  \<^verbatim>\<open>authentik-full\<close> and \<^verbatim>\<open>authentik-diag\<close> in this order; each is a server descriptor
  whose environment has exactly the two names \<^verbatim>\<open>AUTHENTIK_BASE_URL\<close> and
  \<^verbatim>\<open>AUTHENTIK_TOKEN\<close>, bound to string literals.
\<close>

theorem default_entries_are_fixed:
  "map fst (new_entries :: (pystr \<times> 'f json) list)
     = [pystr ''authentik-full'', pystr ''authentik-diag'']
   \<and> list_all
       (\<lambda>kv. server_descriptor (snd kv)
          \<and> env_names (snd kv) = [pystr ''AUTHENTIK_BASE_URL'', pystr ''AUTHENTIK_TOKEN''])
       (new_entries :: (pystr \<times> 'f json) list)
   \<and> load_config fc flt \<lparr>fs_dir = b, fs_file = None\<rparr>
     = Inr (JObj [(mcpServers, JObj (new_entries :: (pystr \<times> 'f json) list))], [])"
proof -
  have "map fst (new_entries :: (pystr \<times> 'f json) list)
      = [pystr ''authentik-full'', pystr ''authentik-diag'']"
    by (simp add: new_entries_def)
  moreover have "list_all
       (\<lambda>kv. server_descriptor (snd kv)
          \<and> env_names (snd kv) = [pystr ''AUTHENTIK_BASE_URL'', pystr ''AUTHENTIK_TOKEN''])
       (new_entries :: (pystr \<times> 'f json) list)"
    by (simp add: new_entries_def server_descriptor_def env_names_def field_def dict_get_def
        pystr_def)
  moreover have "load_config fc flt \<lparr>fs_dir = b, fs_file = None\<rparr>
      = Inr (JObj [(mcpServers, JObj new_entries)], [])"
    by (simp add: load_config_def config_template_def)
  ultimately show ?thesis by simp
qed

subsection \<open>C8: every other error propagates\<close>

lemma merge_existing_not_JSONDecodeError: "merge_existing v \<noteq> Inl JSONDecodeError"
proof (cases v)
  case (JObj d)
  show ?thesis
  proof (cases "dict_get mcpServers d = None
      \<or> (\<exists>old. dict_get mcpServers d = Some (JObj old))")
    case True
    from merge_existing_object [OF True] JObj show ?thesis by simp
  next
    case False
    then obtain x where "dict_get mcpServers d = Some x" "\<forall>old. x \<noteq> JObj old" by auto
    from merge_existing_not_dict [OF this] JObj show ?thesis by simp
  qed
qed simp_all

lemma load_config_not_JSONDecodeError: "load_config fc flt fs \<noteq> Inl JSONDecodeError"
  using merge_existing_not_JSONDecodeError
  by (auto simp: load_config_def split: option.splits sum.splits)

lemma write_text_not_JSONDecodeError: "write_text flt s \<noteq> (Some JSONDecodeError, bytes)"
  by (auto simp: write_text_def split: option.splits)

text \<open>
  C8. A run never ends in \<^verbatim>\<open>JSONDecodeError\<close>: that error is the one handled inside. Every
  other failure is the outcome of the run, and nothing is done after it: a failing
  \<^verbatim>\<open>mkdir\<close> leaves everything as it was; a failing read, or a file that is not UTF-8, leaves
  the file as it was; a failing open for writing leaves the file as it was; and a failing
  write leaves the bytes that reached the file before the failure.
\<close>

theorem only_JSONDecodeError_is_handled:
  "result (create_claude_config fc home flt fs) \<noteq> Inl JSONDecodeError
   \<and> (mkdir_error flt = Some e \<longrightarrow>
        create_claude_config fc home flt fs
          = \<lparr>result = Inl (OSError e), fs_after = fs, stdout = [], dumped = None\<rparr>)
   \<and> (mkdir_error flt = None \<and> fs_file fs = Some content \<and> read_error flt = Some e \<longrightarrow>
        result (create_claude_config fc home flt fs) = Inl (OSError e)
        \<and> fs_file (fs_after (create_claude_config fc home flt fs)) = Some content
        \<and> dumped (create_claude_config fc home flt fs) = None)
   \<and> (mkdir_error flt = None \<and> fs_file fs = Some content \<and> read_error flt = None
        \<and> utf8_decode content = None \<longrightarrow>
        result (create_claude_config fc home flt fs) = Inl UnicodeDecodeError
        \<and> fs_file (fs_after (create_claude_config fc home flt fs)) = Some content
        \<and> dumped (create_claude_config fc home flt fs) = None)
   \<and> (mkdir_error flt = None \<and> load_config fc flt fs = Inl err \<longrightarrow>
        result (create_claude_config fc home flt fs) = Inl err
        \<and> fs_file (fs_after (create_claude_config fc home flt fs)) = fs_file fs)
   \<and> (mkdir_error flt = None \<and> load_config fc flt fs = Inr (cfg, out)
        \<and> open_error flt = Some e \<longrightarrow>
        result (create_claude_config fc home flt fs) = Inl (OSError e)
        \<and> fs_file (fs_after (create_claude_config fc home flt fs)) = fs_file fs)
   \<and> (mkdir_error flt = None \<and> load_config fc flt fs = Inr (cfg, out)
        \<and> open_error flt = None \<and> utf8_encode (dumps fc cfg) = Some bytes
        \<and> write_error flt = Some (e, n) \<longrightarrow>
        result (create_claude_config fc home flt fs) = Inl (OSError e)
        \<and> fs_file (fs_after (create_claude_config fc home flt fs)) = Some (take n bytes))"
proof -
  have 1: "result (create_claude_config fc home flt fs) \<noteq> Inl JSONDecodeError"
    using load_config_not_JSONDecodeError [of fc flt fs]
    by (auto simp: create_claude_config_def load_config_fs_dir Let_def
          write_text_not_JSONDecodeError
        split: option.splits sum.splits prod.splits)
  have 2: "create_claude_config fc home flt fs
      = \<lparr>result = Inl (OSError e), fs_after = fs, stdout = [], dumped = None\<rparr>"
    if "mkdir_error flt = Some e"
    using that by (simp add: create_claude_config_def)
  have 5: "result (create_claude_config fc home flt fs) = Inl err
      \<and> fs_file (fs_after (create_claude_config fc home flt fs)) = fs_file fs
      \<and> dumped (create_claude_config fc home flt fs) = None"
    if "mkdir_error flt = None" "load_config fc flt fs = Inl err" for err
    using run_raises_in_load [OF that, of home] by simp
  have 3: "load_config fc flt fs = Inl (OSError e)"
    if "fs_file fs = Some content" "read_error flt = Some e"
    using that by (simp add: load_config_def)
  have 4: "load_config fc flt fs = Inl UnicodeDecodeError"
    if "fs_file fs = Some content" "read_error flt = None" "utf8_decode content = None"
    using that by (simp add: load_config_def)
  have 6: "result (create_claude_config fc home flt fs) = Inl (OSError e)
      \<and> fs_file (fs_after (create_claude_config fc home flt fs)) = fs_file fs"
    if "mkdir_error flt = None" "load_config fc flt fs = Inr (cfg, out)" "open_error flt = Some e"
    using that by (simp add: create_claude_config_def load_config_fs_dir)
  have 7: "result (create_claude_config fc home flt fs) = Inl (OSError e)
      \<and> fs_file (fs_after (create_claude_config fc home flt fs)) = Some (take n bytes)"
    if "mkdir_error flt = None" "load_config fc flt fs = Inr (cfg, out)" "open_error flt = None"
      "utf8_encode (dumps fc cfg) = Some bytes" "write_error flt = Some (e, n)"
    using that by (simp add: create_claude_config_def load_config_fs_dir write_text_def)
  from 1 2 3 4 5 6 7 show ?thesis by (simp (no_asm_simp))
qed

text \<open>
  Two runs that fail: one where \<^verbatim>\<open>mkdir\<close> is refused (error 13), and one without a file
  where the disk is full (error 28) after ten bytes.
\<close>

theorem only_JSONDecodeError_is_handled_witness:
  "create_claude_config example_codec example_home (no_faults\<lparr>mkdir_error := Some 13\<rparr>) fresh_fs
     = \<lparr>result = Inl (OSError 13), fs_after = fresh_fs, stdout = [], dumped = None\<rparr>
   \<and> result (create_claude_config example_codec example_home
        (no_faults\<lparr>write_error := Some (28, 10)\<rparr>) fresh_fs) = Inl (OSError 28)
   \<and> fs_file (fs_after (create_claude_config example_codec example_home
        (no_faults\<lparr>write_error := Some (28, 10)\<rparr>) fresh_fs))
       = Some (take 10 (map char_of (dumps example_codec config_template)))"
proof -
  have f: "fs_file fresh_fs = None" by (simp add: fresh_fs_def)
  have lc: "load_config example_codec (no_faults\<lparr>write_error := Some (28, 10)\<rparr>) fresh_fs
      = Inr (config_template, [])"
    by (rule load_config_no_file [OF f])
  have en: "utf8_encode (dumps example_codec (config_template :: bool json))
      = Some (map char_of (dumps example_codec config_template))"
    by (rule utf8_encode_ascii [OF wf_json_ascii [OF wf_config_template]])
  from only_JSONDecodeError_is_handled [of example_codec example_home
      "no_faults\<lparr>mkdir_error := Some 13\<rparr>" fresh_fs 13]
  have a: "create_claude_config example_codec example_home (no_faults\<lparr>mkdir_error := Some 13\<rparr>)
      fresh_fs = \<lparr>result = Inl (OSError 13), fs_after = fresh_fs, stdout = [], dumped = None\<rparr>"
    by simp
  from only_JSONDecodeError_is_handled [of example_codec example_home
      "no_faults\<lparr>write_error := Some (28, 10)\<rparr>" fresh_fs 28 _ _ config_template "[]"
      "map char_of (dumps example_codec config_template)" 10] lc en
  have b: "result (create_claude_config example_codec example_home
        (no_faults\<lparr>write_error := Some (28, 10)\<rparr>) fresh_fs) = Inl (OSError 28)
      \<and> fs_file (fs_after (create_claude_config example_codec example_home
        (no_faults\<lparr>write_error := Some (28, 10)\<rparr>) fresh_fs))
       = Some (take 10 (map char_of (dumps example_codec config_template)))"
    by (simp add: no_faults_def)
  from a b show ?thesis by simp
qed

subsection \<open>C9: a document that is not an object\<close>

text \<open>
  C9. If the existing file holds a JSON document that is not an object (an array, a
  string, a number, a boolean or \<^verbatim>\<open>null\<close>), the run raises \<^verbatim>\<open>TypeError\<close>; nothing is printed,
  \<^verbatim>\<open>json.dump\<close> is not reached and the file is left as it was.
\<close>

theorem non_object_document_raises_TypeError:
  assumes "mkdir_error flt = None" and "read_error flt = None"
    and "fs_file fs = Some content" and "utf8_decode content = Some s"
    and "loads fc s = Some v" and "\<forall>d. v \<noteq> JObj d"
  shows "result (create_claude_config fc home flt fs) = Inl TypeError
       \<and> fs_file (fs_after (create_claude_config fc home flt fs)) = Some content
       \<and> stdout (create_claude_config fc home flt fs) = []
       \<and> dumped (create_claude_config fc home flt fs) = None"
proof -
  from assms(6) have "merge_existing v = Inl TypeError"
    by (cases v) simp_all
  with load_config_parsed [OF assms(2-5)] have "load_config fc flt fs = Inl TypeError"
    by simp
  from run_raises_in_load [OF assms(1) this] assms(3) show ?thesis by simp
qed

theorem non_object_document_raises_TypeError_witness:
  "loads example_codec (pystr ''[1]'') = Some (JArr [JInt 1])
   \<and> result (create_claude_config example_codec example_home no_faults
        \<lparr>fs_dir = True, fs_file = Some ''[1]''\<rparr>) = Inl TypeError
   \<and> fs_file (fs_after (create_claude_config example_codec example_home no_faults
        \<lparr>fs_dir = True, fs_file = Some ''[1]''\<rparr>)) = Some ''[1]''"
proof -
  have l: "loads example_codec (pystr ''[1]'') = Some (JArr [JInt 1])"
    by (simp add: scan_eval)
  have d: "utf8_decode ''[1]'' = Some (pystr ''[1]'')"
    by (rule utf8_decode_pystr) simp
  have f: "fs_file \<lparr>fs_dir = True, fs_file = Some ''[1]''\<rparr> = Some ''[1]''" by simp
  from non_object_document_raises_TypeError [of no_faults _ "''[1]''" _ example_codec _
      example_home, OF _ _ f d l] l
  show ?thesis by (simp add: no_faults_def)
qed

subsection \<open>C10: the other top-level keys\<close>

text \<open>
  C10. If the existing file holds a JSON object and no operation fails, the file after the
  run holds a JSON object in which every key other than \<^verbatim>\<open>mcpServers\<close> has the value it
  had, and these keys stand in the order they had. (When the \<^verbatim>\<open>mcpServers\<close> entry is not an
  object the run raises and the file is the old one.)
\<close>

theorem other_top_level_keys_are_kept:
  assumes "float_codec_ok fc"
    and "mkdir_error flt = None" and "read_error flt = None" and "open_error flt = None"
    and "write_error flt = None"
    and "fs_file fs = Some content" and "utf8_decode content = Some s"
    and "loads fc s = Some (JObj d)"
  shows "\<exists>content' s' d'.
      fs_file (fs_after (create_claude_config fc home flt fs)) = Some content'
    \<and> utf8_decode content' = Some s'
    \<and> loads fc s' = Some (JObj d')
    \<and> (\<forall>k. k \<noteq> mcpServers \<longrightarrow> dict_get k d' = dict_get k d)
    \<and> filter (\<lambda>k. k \<noteq> mcpServers) (map fst d') = filter (\<lambda>k. k \<noteq> mcpServers) (map fst d)"
proof (cases "merge_existing (JObj d)")
  case (Inl err)
  with load_config_parsed [OF assms(3,6,7,8)] have "load_config fc flt fs = Inl err" by simp
  from run_raises_in_load [OF assms(2) this, of home] assms(6,7,8) show ?thesis by simp
next
  case (Inr v)
  then obtain d' where v: "v = JObj d'"
    and oth: "\<forall>k. k \<noteq> mcpServers \<longrightarrow> dict_get k d' = dict_get k d"
    and ord: "filter (\<lambda>x. x \<noteq> mcpServers) (map fst d') = filter (\<lambda>x. x \<noteq> mcpServers) (map fst d)"
    by (rule merge_existing_servers)
  from load_config_parsed [OF assms(3,6,7,8)] Inr v
  have lc: "load_config fc flt fs = Inr (JObj d', [])" by simp
  from load_config_wf [OF assms(1) lc] have wf: "wf_json fc (JObj d')" .
  from run_returns [OF assms(2,4,5) lc wf, of home] written_reads_back [OF wf] oth ord
  show ?thesis by simp
qed

theorem other_top_level_keys_are_kept_witness:
  "dict_get (pystr ''theme'') example_config = Some (JStr (pystr ''dark''))
   \<and> dict_get (pystr ''scale'') example_config = Some (JFloat (Finite True))
   \<and> (\<exists>content' s' d'.
        fs_file (fs_after (create_claude_config example_codec example_home no_faults example_fs))
          = Some content'
      \<and> utf8_decode content' = Some s'
      \<and> loads example_codec s' = Some (JObj d')
      \<and> dict_get (pystr ''theme'') d' = Some (JStr (pystr ''dark''))
      \<and> dict_get (pystr ''scale'') d' = Some (JFloat (Finite True))
      \<and> filter (\<lambda>k. k \<noteq> mcpServers) (map fst d') = [pystr ''scale'', pystr ''theme''])"
proof -
  have f: "fs_file example_fs = Some example_file" by (simp add: example_fs_def)
  have g: "dict_get (pystr ''theme'') example_config = Some (JStr (pystr ''dark''))"
    "dict_get (pystr ''scale'') example_config = Some (JFloat (Finite True))"
    by (simp_all add: example_config_def dict_get_def mcpServers_def pystr_def)
  have ne: "pystr ''theme'' \<noteq> mcpServers" "pystr ''scale'' \<noteq> mcpServers"
    by (simp_all add: mcpServers_def pystr_def)
  have o: "filter (\<lambda>k. k \<noteq> mcpServers) (map fst example_config)
      = [pystr ''scale'', pystr ''theme'']"
    by (simp add: example_config_def mcpServers_def pystr_def)
  from other_top_level_keys_are_kept [OF example_codec_ok _ _ _ _ f example_file_reads,
      of no_faults example_home]
  obtain content' s' d' where
    "fs_file (fs_after (create_claude_config example_codec example_home no_faults example_fs))
      = Some content'" "utf8_decode content' = Some s'" "loads example_codec s' = Some (JObj d')"
    "\<forall>k. k \<noteq> mcpServers \<longrightarrow> dict_get k d' = dict_get k example_config"
    "filter (\<lambda>k. k \<noteq> mcpServers) (map fst d')
      = filter (\<lambda>k. k \<noteq> mcpServers) (map fst example_config)"
    by (auto simp: no_faults_def)
  with g ne o show ?thesis by auto
qed


section \<open>Beyond the claims\<close>

subsection \<open>X1: an \<^verbatim>\<open>mcpServers\<close> entry that is not an object\<close>

text \<open>
  X1. If the existing file holds a JSON object whose \<^verbatim>\<open>mcpServers\<close> entry is not an object
  (a list, a string, a number, a boolean or \<^verbatim>\<open>null\<close>), line 61 raises \<^verbatim>\<open>AttributeError\<close>:
  nothing is printed, \<^verbatim>\<open>json.dump\<close> is not reached and the file is left as it was.
\<close>

theorem non_object_servers_raise_AttributeError:
  assumes "mkdir_error flt = None" and "read_error flt = None"
    and "fs_file fs = Some content" and "utf8_decode content = Some s"
    and "loads fc s = Some (JObj d)"
    and "dict_get mcpServers d = Some v" and "\<forall>old. v \<noteq> JObj old"
  shows "result (create_claude_config fc home flt fs) = Inl AttributeError
       \<and> fs_file (fs_after (create_claude_config fc home flt fs)) = Some content
       \<and> stdout (create_claude_config fc home flt fs) = []
       \<and> dumped (create_claude_config fc home flt fs) = None"
proof -
  from load_config_parsed [OF assms(2-5)] merge_existing_not_dict [OF assms(6,7)]
  have "load_config fc flt fs = Inl AttributeError" by simp
  from run_raises_in_load [OF assms(1) this] assms(3) show ?thesis by simp
qed

theorem non_object_servers_raise_AttributeError_witness:
  "loads example_codec (dumps example_codec (JObj [(mcpServers, JArr [])]))
     = Some (JObj [(mcpServers, JArr [])])
   \<and> result (create_claude_config example_codec example_home no_faults
        \<lparr>fs_dir = True,
         fs_file = Some (map char_of (dumps example_codec (JObj [(mcpServers, JArr [])])))\<rparr>)
       = Inl AttributeError
   \<and> fs_file (fs_after (create_claude_config example_codec example_home no_faults
        \<lparr>fs_dir = True,
         fs_file = Some (map char_of (dumps example_codec (JObj [(mcpServers, JArr [])])))\<rparr>))
       = Some (map char_of (dumps example_codec (JObj [(mcpServers, JArr [])])))"
proof -
  let ?v = "JObj [(mcpServers, JArr [])] :: bool json"
  let ?bytes = "map char_of (dumps example_codec ?v)"
  have wf: "wf_json example_codec ?v" by (simp add: wf_mcpServers)
  have g: "dict_get mcpServers [(mcpServers, JArr [] :: bool json)] = Some (JArr [])"
    by (simp add: dict_get_def)
  have f: "fs_file \<lparr>fs_dir = True, fs_file = Some ?bytes\<rparr> = Some ?bytes" by simp
  from non_object_servers_raise_AttributeError [of no_faults _ ?bytes _ example_codec _ _
      example_home, OF _ _ f written_reads_back [OF wf] g] written_reads_back(2) [OF wf]
  show ?thesis by (simp add: no_faults_def)
qed

end
